theory Spec2Isabelle
  imports Main
begin

section \<open>The boundary-tag allocator of simple\_alloc.cpp\<close>

text \<open>
  The allocator manages one caller-supplied buffer. Every block starts and ends with a
  \<open>tag\<close> (8 bytes: a 63-bit size and a busy bit); neighbours are found by adding or
  subtracting the stored sizes. The model keeps the memory as a store of tags indexed by
  byte address, and the two globals \<open>mem::begin\<close> and \<open>mem::end\<close> beside it.

  \<^item> Pointers are byte addresses (\<open>int\<close>); \<open>nullptr\<close> is address 0.
  \<^item> \<open>size_t\<close> values are \<open>nat\<close>s below \<open>2 ^ 64\<close>; every addition of the source
    that can wrap is written with \<open>mod 2 ^ 64\<close>, every store into the 63-bit field
    \<open>size\<close> with \<open>mod 2 ^ 63\<close>.
  \<^item> The flag \<open>strict\<close> says whether \<open>assert\<close> is compiled in (no \<open>NDEBUG\<close>); a failed
    assertion is the result \<open>Inl AssertionFailed\<close>.
  \<^item> The store holds one tag per byte address, and a store at one address leaves the
    tags at all other addresses as they are. The memory of the source is made of bytes:
    tags at addresses less than 8 apart share bytes. The store is exact for a call
    whose reads and stores are all at addresses congruent modulo 8. The theorems about
    calls that store are about such calls: in an arena the block sizes are multiples
    of 8 and the pointers are payload pointers, the example states hold aligned tags
    only, or the hypotheses \<open>on_grid\<close> and \<open>tags_aligned\<close> say so. Every address can be
    read and written: an access outside the buffer is an access to whatever lies
    there. Payload bytes are not modelled beyond the tags that may be stored in them.
  \<^item> Names follow the source. \<open>next\<close> is written \<open>next_blk\<close>, the fields \<open>size\<close> and
    the parameters \<open>head\<close>, \<open>tail\<close> and \<open>size\<close> are written \<open>size63\<close>, \<open>hdr\<close>, \<open>ftr\<close>
    and \<open>bsize\<close> or \<open>sz\<close>.
\<close>

type_synonym addr = int

definition nullptr :: addr where
  "nullptr = 0"

record tag =
  size63 :: nat
  busy :: bool

definition sizeof_tag :: nat where
  "sizeof_tag = 8"

record mem =
  cells :: "addr \<Rightarrow> tag"
  mem_begin :: addr
  mem_end :: addr

datatype error = AssertionFailed

definition store :: "mem \<Rightarrow> addr \<Rightarrow> tag \<Rightarrow> mem" where
  "store m a t = m\<lparr>cells := (cells m)(a := t)\<rparr>"

text \<open>Sequencing of steps that may abort: the first failed assertion ends the call.\<close>

definition bind_err :: "error + 'a \<Rightarrow> ('a \<Rightarrow> error + 'b) \<Rightarrow> error + 'b" where
  "bind_err r f = (case r of Inl e \<Rightarrow> Inl e | Inr v \<Rightarrow> f v)"

subsection \<open>Navigation between tags\<close>

definition head :: "mem \<Rightarrow> addr \<Rightarrow> addr" where
  "head m ftr = (ftr + int sizeof_tag) - int (size63 (cells m ftr))"

definition tail :: "bool \<Rightarrow> mem \<Rightarrow> addr \<Rightarrow> error + addr" where
  "tail strict m hdr =
     (if strict \<and> \<not> hdr \<noteq> mem_end m then Inl AssertionFailed
      else Inr (hdr + int (size63 (cells m hdr)) - int sizeof_tag))"

definition prev_tail :: "bool \<Rightarrow> mem \<Rightarrow> addr \<Rightarrow> error + addr" where
  "prev_tail strict m hdr =
     (if strict \<and> \<not> hdr \<noteq> mem_begin m then Inl AssertionFailed
      else Inr (hdr - int sizeof_tag))"

definition next_blk :: "bool \<Rightarrow> mem \<Rightarrow> addr \<Rightarrow> error + addr" where
  "next_blk strict m hdr =
     (if strict \<and> \<not> hdr \<noteq> mem_end m then Inl AssertionFailed
      else Inr (hdr + int (size63 (cells m hdr))))"

definition prev :: "bool \<Rightarrow> mem \<Rightarrow> addr \<Rightarrow> error + addr" where
  "prev strict m hdr =
     (if strict \<and> \<not> hdr \<noteq> mem_begin m then Inl AssertionFailed
      else bind_err (prev_tail strict m hdr) (\<lambda>pt. Inr (head m pt)))"

definition user_mem :: "bool \<Rightarrow> mem \<Rightarrow> addr \<Rightarrow> error + addr" where
  "user_mem strict m hdr =
     (if strict \<and> \<not> hdr \<noteq> mem_end m then Inl AssertionFailed
      else Inr (hdr + int sizeof_tag))"

definition from_user_mem :: "addr \<Rightarrow> addr" where
  "from_user_mem p = p - int sizeof_tag"

subsection \<open>mysetup\<close>

text \<open>
  Source lines 51 to 60. The assertions inside \<open>tail\<close> and \<open>next\<close> compare with the value
  \<open>mem::end\<close> had before the call; \<open>mem::begin\<close> is assigned before \<open>next\<close> runs.
\<close>

definition mysetup :: "bool \<Rightarrow> mem \<Rightarrow> addr \<Rightarrow> nat \<Rightarrow> error + mem" where
  "mysetup strict m buf sz =
     (let r = buf;
          m1 = store m r \<lparr>size63 = sz mod 2 ^ 63, busy = False\<rparr>
      in bind_err (tail strict m1 r) (\<lambda>t.
           let m2 = store m1 t (cells m1 r);
               m3 = m2\<lparr>mem_begin := r\<rparr>
           in bind_err (next_blk strict m3 r) (\<lambda>n. Inr (m3\<lparr>mem_end := n\<rparr>))))"

subsection \<open>myalloc\<close>

text \<open>The near-exact fit (source lines 73 to 77): the whole block becomes busy.\<close>

definition alloc_whole :: "bool \<Rightarrow> mem \<Rightarrow> addr \<Rightarrow> error + mem \<times> addr" where
  "alloc_whole strict m block =
     bind_err (tail strict m block) (\<lambda>t.
       let m1 = store m block ((cells m block)\<lparr>busy := True\<rparr>);
           m2 = store m1 t ((cells m1 t)\<lparr>busy := True\<rparr>)
       in bind_err (user_mem strict m2 block) (\<lambda>p. Inr (m2, p)))"

text \<open>
  The split (source lines 78 to 88). The subtraction is guarded by
  \<open>block->size > size\<close> in the caller, so it does not wrap.
\<close>

definition alloc_split :: "bool \<Rightarrow> nat \<Rightarrow> mem \<Rightarrow> addr \<Rightarrow> error + mem \<times> addr" where
  "alloc_split strict bsize m block =
     (let rest_size = size63 (cells m block) - bsize;
          m1 = store m block ((cells m block)\<lparr>size63 := rest_size mod 2 ^ 63\<rparr>)
      in bind_err (tail strict m1 block) (\<lambda>t.
           let m2 = store m1 t (cells m1 block)
           in bind_err (next_blk strict m2 block) (\<lambda>new_block.
                let m3 = store m2 new_block \<lparr>size63 = bsize mod 2 ^ 63, busy = True\<rparr>
                in bind_err (tail strict m3 new_block) (\<lambda>t2.
                     let m4 = store m3 t2 (cells m3 new_block)
                     in bind_err (user_mem strict m4 new_block) (\<lambda>p. Inr (m4, p))))))"

text \<open>
  The scan (source lines 71 to 93). It may run forever on a corrupted store (a tag of
  size 0), so it is a partial function: \<open>None\<close> means that the loop does not return.
\<close>

partial_function (option) myalloc_loop ::
  "bool \<Rightarrow> nat \<Rightarrow> mem \<Rightarrow> addr \<Rightarrow> (error + mem \<times> addr) option" where
  "myalloc_loop strict bsize m block =
     (if block \<noteq> mem_end m then
        (if \<not> busy (cells m block) \<and> size63 (cells m block) \<ge> bsize
              \<and> size63 (cells m block) \<le> (bsize + sizeof_tag * 4) mod 2 ^ 64
         then Some (alloc_whole strict m block)
         else if \<not> busy (cells m block) \<and> size63 (cells m block) > bsize
         then Some (alloc_split strict bsize m block)
         else (case next_blk strict m block of
                 Inl e \<Rightarrow> Some (Inl e)
               | Inr b \<Rightarrow> myalloc_loop strict bsize m b))
      else Some (Inr (m, nullptr)))"

declare myalloc_loop.simps [code]

text \<open>The block size charged for a request of \<open>sz\<close> bytes (source line 68), in 64 bits.\<close>

definition request_size :: "nat \<Rightarrow> nat" where
  "request_size sz = ((sz + sizeof_tag * 2 + 7) mod 2 ^ 64) div 8 * 8"

definition myalloc :: "bool \<Rightarrow> mem \<Rightarrow> nat \<Rightarrow> (error + mem \<times> addr) option" where
  "myalloc strict m sz =
     (if sz = 0 then Some (Inr (m, nullptr))
      else myalloc_loop strict (request_size sz) m (mem_begin m))"

subsection \<open>myfree\<close>

text \<open>Source lines 117 to 125: merge with the block on the left when it is free.\<close>

definition union_prev :: "bool \<Rightarrow> mem \<Rightarrow> addr \<Rightarrow> error + mem \<times> addr" where
  "union_prev strict m block =
     (if block \<noteq> mem_begin m then
        bind_err (prev strict m block) (\<lambda>prv.
          if \<not> busy (cells m prv) then
            (let m1 = store m prv ((cells m prv)
                        \<lparr>size63 := (size63 (cells m prv) + size63 (cells m block)) mod 2 ^ 63\<rparr>)
             in bind_err (tail strict m1 prv) (\<lambda>t. Inr (store m1 t (cells m1 prv), prv)))
          else Inr (m, block))
      else Inr (m, block))"

text \<open>Source lines 127 to 132: merge with the block on the right when it is free.\<close>

definition union_next :: "bool \<Rightarrow> mem \<Rightarrow> addr \<Rightarrow> error + mem" where
  "union_next strict m block =
     bind_err (next_blk strict m block) (\<lambda>nxt.
       if nxt \<noteq> mem_end m \<and> \<not> busy (cells m nxt) then
         (let m1 = store m block ((cells m block)
                     \<lparr>size63 := (size63 (cells m block) + size63 (cells m nxt)) mod 2 ^ 63\<rparr>)
          in bind_err (tail strict m1 block) (\<lambda>t. Inr (store m1 t (cells m1 block))))
       else Inr m)"

text \<open>
  Source lines 103 to 133. With assertions compiled in, the two \<open>assert\<close>s abort before
  the plain checks that follow them can return.
\<close>

definition myfree :: "bool \<Rightarrow> mem \<Rightarrow> addr \<Rightarrow> error + mem" where
  "myfree strict m p =
     (if p = nullptr then Inr m
      else if strict \<and> \<not> (p \<ge> mem_begin m \<and> p < mem_end m) then Inl AssertionFailed
      else if p < mem_begin m \<or> p \<ge> mem_end m then Inr m
      else
        (let block = from_user_mem p
         in if strict \<and> \<not> busy (cells m block) then Inl AssertionFailed
            else if \<not> busy (cells m block) then Inr m
            else
              (let m1 = store m block ((cells m block)\<lparr>busy := False\<rparr>)
               in bind_err (tail strict m1 block) (\<lambda>t.
                    let m2 = store m1 t (cells m1 block)
                    in bind_err (union_prev strict m2 block) (\<lambda>(m3, block').
                         union_next strict m3 block')))))"

subsection \<open>The walk of mydump\<close>

text \<open>
  The loop of \<open>mydump\<close> (source line 143): one entry (address, size, busy) per block
  met from \<open>p\<close> until \<open>mem::end\<close>.
\<close>

partial_function (option) walk ::
  "bool \<Rightarrow> mem \<Rightarrow> addr \<Rightarrow> (error + (addr \<times> nat \<times> bool) list) option" where
  "walk strict m p =
     (if p \<noteq> mem_end m then
        (case next_blk strict m p of
           Inl e \<Rightarrow> Some (Inl e)
         | Inr n \<Rightarrow>
             Option.bind (walk strict m n)
               (\<lambda>r. case r of
                      Inl e \<Rightarrow> Some (Inl e)
                    | Inr xs \<Rightarrow> Some (Inr ((p, size63 (cells m p), busy (cells m p)) # xs))))
      else Some (Inr []))"

declare walk.simps [code]

text \<open>\<open>mydump\<close> prints only when \<open>NDEBUG\<close> is not defined (source lines 141 to 147).\<close>

definition mydump :: "bool \<Rightarrow> mem \<Rightarrow> (error + (addr \<times> nat \<times> bool) list) option" where
  "mydump strict m = (if strict then walk strict m (mem_begin m) else Some (Inr []))"

subsection \<open>The test driver\<close>

text \<open>Sequencing of calls that may abort or may not return.\<close>

definition bind_run ::
  "(error + 'a) option \<Rightarrow> ('a \<Rightarrow> (error + 'b) option) \<Rightarrow> (error + 'b) option" where
  "bind_run r f = (case r of None \<Rightarrow> None | Some (Inl e) \<Rightarrow> Some (Inl e) | Some (Inr v) \<Rightarrow> f v)"

text \<open>\<open>my_allocator\<close> and \<open>my_deleter\<close> (source lines 154 to 165): the call, then the dump.\<close>

definition my_allocator ::
  "bool \<Rightarrow> mem \<Rightarrow> nat \<Rightarrow> (error + mem \<times> addr \<times> (addr \<times> nat \<times> bool) list) option" where
  "my_allocator strict m sz =
     bind_run (myalloc strict m sz) (\<lambda>(m', p).
       bind_run (mydump strict m') (\<lambda>d. Some (Inr (m', p, d))))"

definition my_deleter ::
  "bool \<Rightarrow> mem \<Rightarrow> addr \<Rightarrow> (error + mem \<times> (addr \<times> nat \<times> bool) list) option" where
  "my_deleter strict m my_ptr =
     bind_run (Some (myfree strict m my_ptr)) (\<lambda>m'.
       bind_run (mydump strict m') (\<lambda>d. Some (Inr (m', d))))"

text \<open>
  The state in which \<open>test_myalloc\<close> starts: the globals \<open>mem::begin\<close> and \<open>mem::end\<close>
  are zero-initialised, the store holds \<open>h\<close>.
\<close>

definition initial :: "(addr \<Rightarrow> tag) \<Rightarrow> mem" where
  "initial h = \<lparr>cells = h, mem_begin = nullptr, mem_end = nullptr\<rparr>"

text \<open>
  The allocations of \<open>test_myalloc\<close> (source lines 173 to 192) on a buffer of 1024 bytes
  at \<open>buf\<close>, with the assertions of the test. The result is the state and the four
  pointers returned for the requests of 16, 512, 1024 and 12 bytes. The calls of
  \<open>memset\<close> write payload bytes only and are left out.
\<close>

definition test_allocs ::
  "bool \<Rightarrow> mem \<Rightarrow> addr \<Rightarrow> (error + mem \<times> addr \<times> addr \<times> addr \<times> addr) option" where
  "test_allocs strict m0 buf =
     bind_run (Some (mysetup strict m0 buf 1024)) (\<lambda>m.
     bind_run (myalloc strict m 16) (\<lambda>(m1, p1).
       if strict \<and> \<not> p1 \<noteq> nullptr then Some (Inl AssertionFailed) else
     bind_run (myalloc strict m1 512) (\<lambda>(m2, p2).
       if strict \<and> \<not> p2 \<noteq> nullptr then Some (Inl AssertionFailed) else
     bind_run (myalloc strict m2 1024) (\<lambda>(m3, p3).
       if strict \<and> \<not> p3 = nullptr then Some (Inl AssertionFailed) else
     bind_run (myalloc strict m3 12) (\<lambda>(m4, p4).
       if strict \<and> \<not> p4 \<noteq> nullptr then Some (Inl AssertionFailed) else
       Some (Inr (m4, p1, p2, p3, p4)))))))"

text \<open>Freeing a list of pointers one after the other.\<close>

fun free_all :: "bool \<Rightarrow> mem \<Rightarrow> addr list \<Rightarrow> error + mem" where
  "free_all strict m [] = Inr m"
| "free_all strict m (p # ps) = bind_err (myfree strict m p) (\<lambda>m'. free_all strict m' ps)"

section \<open>The data-model invariants\<close>

text \<open>
  A block list gives, from left to right, the size and the busy flag of every block.
  \<open>block_at h a (s, b)\<close>: the header at \<open>a\<close> and the footer at \<open>a + s - 8\<close> both
  hold \<open>(s, b)\<close>, and \<open>s\<close> is a multiple of 8 and at least two tags.
  \<open>chain h a bs\<close>: the blocks \<open>bs\<close> lie one after the other from \<open>a\<close>.
  \<open>arena m bs\<close>: they fill \<open>[mem::begin, mem::end)\<close> exactly. The length of the arena
  is below \<open>2 ^ 63\<close>: \<open>mysetup\<close> stores it in the 63-bit size field of the first tag.
\<close>

type_synonym blocks = "(nat \<times> bool) list"

definition block_at :: "(addr \<Rightarrow> tag) \<Rightarrow> addr \<Rightarrow> nat \<times> bool \<Rightarrow> bool" where
  "block_at h a sb =
     (h a = \<lparr>size63 = fst sb, busy = snd sb\<rparr>
      \<and> h (a + int (fst sb) - int sizeof_tag) = \<lparr>size63 = fst sb, busy = snd sb\<rparr>
      \<and> 2 * sizeof_tag \<le> fst sb \<and> 8 dvd fst sb)"

fun chain :: "(addr \<Rightarrow> tag) \<Rightarrow> addr \<Rightarrow> blocks \<Rightarrow> bool" where
  "chain h a [] = True"
| "chain h a (sb # bs) = (block_at h a sb \<and> chain h (a + int (fst sb)) bs)"

definition span :: "blocks \<Rightarrow> nat" where
  "span bs = sum_list (map fst bs)"

definition arena :: "mem \<Rightarrow> blocks \<Rightarrow> bool" where
  "arena m bs =
     (chain (cells m) (mem_begin m) bs
      \<and> mem_end m = mem_begin m + int (span bs)
      \<and> span bs < 2 ^ 63)"

text \<open>Invariant 3: no two neighbours are both free.\<close>

fun no_adjacent_free :: "blocks \<Rightarrow> bool" where
  "no_adjacent_free (x # y # bs) = ((snd x \<or> snd y) \<and> no_adjacent_free (y # bs))"
| "no_adjacent_free bs = True"

text \<open>What the walk prints for a block list that starts at \<open>a\<close>, and the payload pointers.\<close>

fun layout :: "addr \<Rightarrow> blocks \<Rightarrow> (addr \<times> nat \<times> bool) list" where
  "layout a [] = []"
| "layout a (sb # bs) = (a, fst sb, snd sb) # layout (a + int (fst sb)) bs"

fun payloads :: "addr \<Rightarrow> blocks \<Rightarrow> addr list" where
  "payloads a [] = []"
| "payloads a (sb # bs) = (a + int sizeof_tag) # payloads (a + int (fst sb)) bs"

text \<open>The block size the specification charges: the request plus two tags, rounded up to 8.\<close>

definition roundUp8 :: "nat \<Rightarrow> nat" where
  "roundUp8 n = (n + 7) div 8 * 8"

text \<open>
  The blocks the scan passes over when it looks for \<open>B\<close> bytes: each is busy or smaller
  than \<open>B\<close>.
\<close>

fun skipped :: "nat \<Rightarrow> blocks \<Rightarrow> bool" where
  "skipped B [] = True"
| "skipped B (sb # bs) = ((snd sb \<or> fst sb < B) \<and> skipped B bs)"

text \<open>The stores that the two allocating branches leave.\<close>

definition whole_result :: "mem \<Rightarrow> addr \<Rightarrow> nat \<Rightarrow> mem" where
  "whole_result m a s =
     store (store m a \<lparr>size63 = s, busy = True\<rparr>) (a + int s - 8) \<lparr>size63 = s, busy = True\<rparr>"

definition split_result :: "mem \<Rightarrow> addr \<Rightarrow> nat \<Rightarrow> nat \<Rightarrow> mem" where
  "split_result m a s B =
     store (store (store (store m a \<lparr>size63 = s - B, busy = False\<rparr>)
                     (a + int (s - B) - 8) \<lparr>size63 = s - B, busy = False\<rparr>)
              (a + int (s - B)) \<lparr>size63 = B, busy = True\<rparr>)
       (a + int s - 8) \<lparr>size63 = B, busy = True\<rparr>"

text \<open>
  The block list after freeing the busy block of size \<open>s\<close> between \<open>pre\<close> and \<open>post\<close>:
  it absorbs the last block of \<open>pre\<close> and the first block of \<open>post\<close> when they are free.
\<close>

definition merge_left :: "blocks \<Rightarrow> nat \<Rightarrow> blocks \<times> nat" where
  "merge_left pre s =
     (if pre \<noteq> [] \<and> \<not> snd (last pre) then (butlast pre, fst (last pre) + s) else (pre, s))"

definition merge_right :: "nat \<Rightarrow> blocks \<Rightarrow> nat \<times> blocks" where
  "merge_right s post =
     (case post of
        (sn, False) # post' \<Rightarrow> (s + sn, post')
      | _ \<Rightarrow> (s, post))"

definition free_blocks :: "blocks \<Rightarrow> nat \<Rightarrow> blocks \<Rightarrow> blocks" where
  "free_blocks pre s post =
     (let (pre', s') = merge_left pre s;
          (s'', post') = merge_right s' post
      in pre' @ (s'', False) # post')"

text \<open>
  The arguments with which \<open>myfree\<close> may be called: the null pointer, a pointer outside
  the arena, or the payload pointer of a block.
\<close>

definition free_arg_ok :: "mem \<Rightarrow> blocks \<Rightarrow> addr \<Rightarrow> bool" where
  "free_arg_ok m bs p =
     (p = nullptr \<or> p < mem_begin m \<or> mem_end m \<le> p \<or> p \<in> set (payloads (mem_begin m) bs))"

text \<open>
  Where the store is exact. The grid of the arena is the set of addresses that differ
  from \<open>mem::begin\<close> by a multiple of 8; tags at two grid addresses never share a byte.
  \<open>tags_aligned m\<close>: every tag on the grid has a size that is a multiple of 8, so
  every address computed from a grid address and a size read on the grid is on the
  grid again. \<open>same_grid m n\<close>: the two states agree on the grid (and may differ
  anywhere else). \<open>off_grid_kept m m'\<close>: \<open>m'\<close> holds at every address off the grid what
  \<open>m\<close> holds there. A call that gives results that agree on the grid from states that
  agree on the grid has read on the grid only, and a call that keeps everything off
  the grid has written on the grid only.
\<close>

definition on_grid :: "mem \<Rightarrow> addr \<Rightarrow> bool" where
  "on_grid m a = (8 dvd (a - mem_begin m))"


definition same_grid :: "mem \<Rightarrow> mem \<Rightarrow> bool" where
  "same_grid m n =
     (mem_begin m = mem_begin n \<and> mem_end m = mem_end n
      \<and> (\<forall>a. on_grid m a \<longrightarrow> cells m a = cells n a))"

definition off_grid_kept :: "mem \<Rightarrow> mem \<Rightarrow> bool" where
  "off_grid_kept m m' = (\<forall>a. \<not> on_grid m a \<longrightarrow> cells m' a = cells m a)"

text \<open>
  The state after \<open>mysetup(buf, len)\<close> for a buffer at address 8 in a zeroed store
  (lemma \<open>setup_fresh\<close> below), \<open>len\<close> a multiple of 8: one free block of \<open>len\<close> bytes.
\<close>

definition zeroed :: "addr \<Rightarrow> tag" where
  "zeroed = (\<lambda>_. \<lparr>size63 = 0, busy = False\<rparr>)"

definition fresh :: "nat \<Rightarrow> mem" where
  "fresh len =
     \<lparr>cells = zeroed
         (8 := \<lparr>size63 = len, busy = False\<rparr>, int len := \<lparr>size63 = len, busy = False\<rparr>),
      mem_begin = 8, mem_end = 8 + int len\<rparr>"


text \<open>The six orders in which three pointers can be freed.\<close>

definition all_orders :: "'a \<Rightarrow> 'a \<Rightarrow> 'a \<Rightarrow> 'a list list" where
  "all_orders a b c = [[a, b, c], [a, c, b], [b, a, c], [b, c, a], [c, a, b], [c, b, a]]"

text \<open>
  Two states that calls on \<open>fresh 1024\<close> reach (lemmas \<open>crowded_reached\<close> and
  \<open>paired_reached\<close> below). \<open>crowded\<close>: after the requests of 24, 8 and 24 bytes and
  the release of the second block. \<open>paired\<close>: after two requests of 16 bytes.
\<close>

definition crowded :: mem where
  "crowded =
     \<lparr>cells = zeroed
         (8 := \<lparr>size63 = 920, busy = False\<rparr>, 920 := \<lparr>size63 = 920, busy = False\<rparr>,
          928 := \<lparr>size63 = 40, busy = True\<rparr>, 960 := \<lparr>size63 = 40, busy = True\<rparr>,
          968 := \<lparr>size63 = 24, busy = False\<rparr>, 984 := \<lparr>size63 = 24, busy = False\<rparr>,
          992 := \<lparr>size63 = 40, busy = True\<rparr>, 1024 := \<lparr>size63 = 40, busy = True\<rparr>),
      mem_begin = 8, mem_end = 1032\<rparr>"

definition paired :: mem where
  "paired =
     \<lparr>cells = zeroed
         (8 := \<lparr>size63 = 960, busy = False\<rparr>, 960 := \<lparr>size63 = 960, busy = False\<rparr>,
          968 := \<lparr>size63 = 32, busy = True\<rparr>, 992 := \<lparr>size63 = 32, busy = True\<rparr>,
          1000 := \<lparr>size63 = 32, busy = True\<rparr>, 1024 := \<lparr>size63 = 32, busy = True\<rparr>),
      mem_begin = 8, mem_end = 1032\<rparr>"

text \<open>
  \<open>gapped\<close>: after two requests of 464 bytes and the release of the first block
  (lemma \<open>gapped_reached\<close>). The free block on the left is too small for most requests.
\<close>

definition gapped :: mem where
  "gapped =
     \<lparr>cells = zeroed
         (8 := \<lparr>size63 = 64, busy = False\<rparr>, 64 := \<lparr>size63 = 64, busy = False\<rparr>,
          72 := \<lparr>size63 = 480, busy = True\<rparr>, 544 := \<lparr>size63 = 480, busy = True\<rparr>,
          552 := \<lparr>size63 = 480, busy = False\<rparr>, 1024 := \<lparr>size63 = 480, busy = False\<rparr>),
      mem_begin = 8, mem_end = 1032\<rparr>"

text \<open>The tags at some addresses after a call of \<open>myfree\<close>.\<close>

definition peek :: "addr list \<Rightarrow> error + mem \<Rightarrow> error + tag list" where
  "peek as r = map_sum id (\<lambda>m. map (cells m) as) r"

section \<open>Basic facts\<close>

lemma span_simps [simp]:
  "span [] = 0" "span (sb # bs) = fst sb + span bs" "span (xs @ ys) = span xs + span ys"
  by (simp_all add: span_def)

lemma store_simps [simp]:
  "cells (store m a t) = (cells m)(a := t)"
  "mem_begin (store m a t) = mem_begin m"
  "mem_end (store m a t) = mem_end m"
  by (simp_all add: store_def)

lemma bind_err_simps [simp]:
  "bind_err (Inr v) f = f v" "bind_err (Inl e) f = Inl e"
  by (simp_all add: bind_err_def)

lemma tail_ok [simp]: "hdr \<noteq> mem_end m \<Longrightarrow> tail strict m hdr = Inr (hdr + int (size63 (cells m hdr)) - 8)"
  by (simp add: tail_def sizeof_tag_def)

lemma next_ok [simp]: "hdr \<noteq> mem_end m \<Longrightarrow> next_blk strict m hdr = Inr (hdr + int (size63 (cells m hdr)))"
  by (simp add: next_blk_def)

lemma user_mem_ok [simp]: "hdr \<noteq> mem_end m \<Longrightarrow> user_mem strict m hdr = Inr (hdr + 8)"
  by (simp add: user_mem_def sizeof_tag_def)

lemma prev_ok [simp]: "hdr \<noteq> mem_begin m \<Longrightarrow> prev strict m hdr = Inr (hdr - int (size63 (cells m (hdr - 8))))"
  by (simp add: prev_def prev_tail_def head_def sizeof_tag_def)

lemma relaxed_simps [simp]:
  "tail False m hdr = Inr (hdr + int (size63 (cells m hdr)) - 8)"
  "next_blk False m hdr = Inr (hdr + int (size63 (cells m hdr)))"
  "user_mem False m hdr = Inr (hdr + 8)"
  "prev False m hdr = Inr (hdr - int (size63 (cells m (hdr - 8))))"
  by (simp_all add: tail_def next_blk_def user_mem_def prev_def prev_tail_def head_def sizeof_tag_def)

lemma chain_append: "chain h a (xs @ ys) = (chain h a xs \<and> chain h (a + int (span xs)) ys)"
  by (induction xs arbitrary: a) (auto simp: algebra_simps)

lemma block_at_cong:
  "block_at h a sb \<Longrightarrow> h' a = h a \<Longrightarrow> h' (a + int (fst sb) - 8) = h (a + int (fst sb) - 8)
   \<Longrightarrow> block_at h' a sb"
  by (simp add: block_at_def sizeof_tag_def)

lemma chain_cong:
  "chain h a bs \<Longrightarrow> (\<And>x. a \<le> x \<Longrightarrow> x < a + int (span bs) \<Longrightarrow> h' x = h x) \<Longrightarrow> chain h' a bs"
proof (induction bs arbitrary: a)
  case Nil
  then show ?case by simp
next
  case (Cons sb bs)
  from Cons.prems(1) have b: "block_at h a sb" and c: "chain h (a + int (fst sb)) bs"
    by simp_all
  from b have sz: "16 \<le> fst sb" by (simp add: block_at_def sizeof_tag_def)
  have "block_at h' a sb"
    using b sz by (intro block_at_cong[OF b] Cons.prems(2)) simp_all
  moreover have "chain h' (a + int (fst sb)) bs"
    by (rule Cons.IH[OF c]) (use sz in \<open>auto intro!: Cons.prems(2)\<close>)
  ultimately show ?case by simp
qed

lemma chain_sizes: "chain h a bs \<Longrightarrow> (s, b) \<in> set bs \<Longrightarrow> 16 \<le> s \<and> 8 dvd s \<and> s \<le> span bs"
  by (induction bs arbitrary: a) (force simp: block_at_def sizeof_tag_def)+

lemma roundUp8_facts: "8 dvd roundUp8 n" "n \<le> roundUp8 n" "roundUp8 n < n + 8"
  by (simp_all add: roundUp8_def)

lemma request_size_eq:
  "sz + 2 * sizeof_tag + 7 < 2 ^ 64 \<Longrightarrow> request_size sz = roundUp8 (sz + 2 * sizeof_tag)"
  by (simp add: request_size_def roundUp8_def sizeof_tag_def)

lemma request_size_min: "0 < sz \<Longrightarrow> 24 \<le> roundUp8 (sz + 2 * sizeof_tag)"
  by (simp add: roundUp8_def sizeof_tag_def)

lemma skipped_iff: "skipped B bs = (\<forall>sb\<in>set bs. snd sb \<or> fst sb < B)"
  by (induction bs) auto

lemma arena_block_bound:
  "arena m (pre @ (s, b) # post) \<Longrightarrow> s < 2 ^ 63"
  by (simp add: arena_def)

lemma arena_blocks:
  "arena m (pre @ sb # post) \<Longrightarrow> block_at (cells m) (mem_begin m + int (span pre)) sb"
  by (simp add: arena_def chain_append)

lemma setup_fresh:
  assumes "len < 2 ^ 63" "8 \<le> len" "8 dvd len"
  shows "mysetup strict (initial zeroed) 8 len = Inr (fresh len)"
  using assms by (simp add: mysetup_def initial_def nullptr_def fresh_def store_def Let_def)

lemma arena_fresh:
  "16 \<le> len \<Longrightarrow> 8 dvd len \<Longrightarrow> len < 2 ^ 63 \<Longrightarrow> arena (fresh len) [(len, False)]"
  by (simp add: arena_def block_at_def fresh_def sizeof_tag_def)

section \<open>The scan of myalloc\<close>

lemma loop_skip:
  assumes "chain (cells m) a pre" and "\<forall>sb\<in>set pre. snd sb \<or> fst sb < B"
    and "a + int (span pre) \<le> mem_end m"
  shows "myalloc_loop strict B m a = myalloc_loop strict B m (a + int (span pre))"
  using assms
proof (induction pre arbitrary: a)
  case Nil
  then show ?case by simp
next
  case (Cons sb pre)
  from Cons.prems(1) have b: "block_at (cells m) a sb" and c: "chain (cells m) (a + int (fst sb)) pre"
    by simp_all
  from b have hd: "cells m a = \<lparr>size63 = fst sb, busy = snd sb\<rparr>" and sz: "16 \<le> fst sb"
    by (simp_all add: block_at_def sizeof_tag_def)
  from Cons.prems(3) sz have ne: "a \<noteq> mem_end m" by simp
  from Cons.prems(2) have skip: "snd sb \<or> fst sb < B" by simp
  have "myalloc_loop strict B m a = myalloc_loop strict B m (a + int (fst sb))"
    using ne skip hd by (subst myalloc_loop.simps) auto
  also have "\<dots> = myalloc_loop strict B m (a + int (fst sb) + int (span pre))"
    using Cons.prems by (intro Cons.IH[OF c]) (simp_all add: algebra_simps)
  finally show ?case by (simp add: algebra_simps)
qed

lemma loop_end: "myalloc_loop strict B m (mem_end m) = Some (Inr (m, nullptr))"
  by (subst myalloc_loop.simps) simp

lemma loop_whole:
  assumes "block_at (cells m) a (s, False)" and "B \<le> s" and "s \<le> B + 32" and "s < 2 ^ 63"
    and "a + int s \<le> mem_end m"
  shows "myalloc_loop strict B m a = Some (Inr (whole_result m a s, a + 8))"
proof -
  from assms(1) have hd: "cells m a = \<lparr>size63 = s, busy = False\<rparr>"
    and ft: "cells m (a + int s - 8) = \<lparr>size63 = s, busy = False\<rparr>" and sz: "16 \<le> s"
    by (simp_all add: block_at_def sizeof_tag_def)
  from assms(5) sz have ne: "a \<noteq> mem_end m" by simp
  have lim: "(B + sizeof_tag * 4) mod 2 ^ 64 = B + 32"
    using assms(2,4) by (simp add: sizeof_tag_def)
  have "alloc_whole strict m a = Inr (whole_result m a s, a + 8)"
    using ne hd ft sz by (simp add: alloc_whole_def whole_result_def Let_def)
  then show ?thesis
    using ne hd assms(2,3) lim by (subst myalloc_loop.simps) simp
qed

lemma loop_split:
  assumes "block_at (cells m) a (s, False)" and "B + 32 < s" and "s < 2 ^ 63"
    and "a + int s \<le> mem_end m" and "0 < B"
  shows "myalloc_loop strict B m a = Some (Inr (split_result m a s B, a + int (s - B) + 8))"
proof -
  from assms(1) have hd: "cells m a = \<lparr>size63 = s, busy = False\<rparr>" and sz: "16 \<le> s"
    by (simp_all add: block_at_def sizeof_tag_def)
  from assms(4) sz have ne: "a \<noteq> mem_end m" by simp
  from assms(2,4,5) have ne2: "a + int (s - B) \<noteq> mem_end m" by simp
  have lim: "(B + sizeof_tag * 4) mod 2 ^ 64 \<le> B + 32"
    by (simp add: sizeof_tag_def)
  have r: "(s - B) mod 2 ^ 63 = s - B" "B mod 2 ^ 63 = B"
    using assms(2,3) by simp_all
  have t2: "a + int (s - B) + int B - 8 = a + int s - 8"
    using assms(2) by simp
  have "alloc_split strict B m a = Inr (split_result m a s B, a + int (s - B) + 8)"
    using ne ne2 hd assms(2) r t2
    by (simp add: alloc_split_def split_result_def Let_def)
  then show ?thesis
    using ne hd assms(2) lim by (subst myalloc_loop.simps) simp
qed

lemma whole_result_fields [simp]:
  "mem_begin (whole_result m a s) = mem_begin m" "mem_end (whole_result m a s) = mem_end m"
  by (simp_all add: whole_result_def)

lemma split_result_fields [simp]:
  "mem_begin (split_result m a s B) = mem_begin m" "mem_end (split_result m a s B) = mem_end m"
  by (simp_all add: split_result_def)

lemma arena_whole:
  assumes "arena m (pre @ (s, False) # post)" and a: "a = mem_begin m + int (span pre)"
  shows "arena (whole_result m a s) (pre @ (s, True) # post)"
proof -
  from assms have pre: "chain (cells m) (mem_begin m) pre"
    and blk: "block_at (cells m) a (s, False)"
    and post: "chain (cells m) (a + int s) post"
    and rest: "mem_end m = mem_begin m + int (span (pre @ (s, False) # post))"
              "span (pre @ (s, False) # post) < 2 ^ 63"
    by (simp_all add: arena_def chain_append)
  from blk have sz: "16 \<le> s" "8 dvd s" by (simp_all add: block_at_def sizeof_tag_def)
  let ?h = "cells (whole_result m a s)"
  have "chain ?h (mem_begin m) pre"
    by (rule chain_cong[OF pre]) (use a sz in \<open>simp add: whole_result_def\<close>)
  moreover have "block_at ?h a (s, True)"
    using sz by (simp add: block_at_def whole_result_def sizeof_tag_def)
  moreover have "chain ?h (a + int s) post"
    by (rule chain_cong[OF post]) (use sz in \<open>simp add: whole_result_def\<close>)
  ultimately show ?thesis
    using rest a by (simp add: arena_def chain_append)
qed

lemma arena_split:
  assumes "arena m (pre @ (s, False) # post)" and a: "a = mem_begin m + int (span pre)"
    and B: "B + 32 < s" "16 \<le> B" "8 dvd B"
  shows "arena (split_result m a s B) (pre @ (s - B, False) # (B, True) # post)"
proof -
  from assms have pre: "chain (cells m) (mem_begin m) pre"
    and blk: "block_at (cells m) a (s, False)"
    and post: "chain (cells m) (a + int s) post"
    and rest: "mem_end m = mem_begin m + int (span (pre @ (s, False) # post))"
              "span (pre @ (s, False) # post) < 2 ^ 63"
    by (simp_all add: arena_def chain_append)
  from blk have sz: "16 \<le> s" "8 dvd s" by (simp_all add: block_at_def sizeof_tag_def)
  let ?h = "cells (split_result m a s B)"
  have "chain ?h (mem_begin m) pre"
    by (rule chain_cong[OF pre]) (use a sz B in \<open>simp add: split_result_def\<close>)
  moreover have "block_at ?h a (s - B, False)"
    using sz B by (simp add: block_at_def split_result_def sizeof_tag_def)
  moreover have "block_at ?h (a + int (s - B)) (B, True)"
    using sz B by (simp add: block_at_def split_result_def sizeof_tag_def)
  moreover have "chain ?h (a + int (s - B) + int B) post"
  proof -
    have "a + int (s - B) + int B = a + int s" using B by simp
    moreover have "chain ?h (a + int s) post"
      by (rule chain_cong[OF post]) (use sz B in \<open>simp add: split_result_def\<close>)
    ultimately show ?thesis by simp
  qed
  ultimately show ?thesis
    using rest a B by (simp add: arena_def chain_append)
qed

lemma alloc_none:
  assumes "arena m bs" and "\<forall>sb\<in>set bs. snd sb \<or> fst sb < B"
  shows "myalloc_loop strict B m (mem_begin m) = Some (Inr (m, nullptr))"
proof -
  from assms(1) have c: "chain (cells m) (mem_begin m) bs"
    and e: "mem_end m = mem_begin m + int (span bs)"
    by (simp_all add: arena_def)
  have "myalloc_loop strict B m (mem_begin m) = myalloc_loop strict B m (mem_begin m + int (span bs))"
    by (rule loop_skip[OF c assms(2)]) (simp add: e)
  then show ?thesis by (simp add: e[symmetric] loop_end)
qed

lemma alloc_whole_ok:
  assumes "arena m (pre @ (s, False) # post)" and "\<forall>sb\<in>set pre. snd sb \<or> fst sb < B"
    and "B \<le> s" and "s \<le> B + 32"
  shows "myalloc_loop strict B m (mem_begin m) =
           Some (Inr (whole_result m (mem_begin m + int (span pre)) s,
                      mem_begin m + int (span pre) + 8))"
proof -
  let ?a = "mem_begin m + int (span pre)"
  from assms(1) have pre: "chain (cells m) (mem_begin m) pre"
    and blk: "block_at (cells m) ?a (s, False)"
    and e: "mem_end m = mem_begin m + int (span (pre @ (s, False) # post))"
    and lt: "span (pre @ (s, False) # post) < 2 ^ 63"
    by (simp_all add: arena_def chain_append)
  have "myalloc_loop strict B m (mem_begin m) = myalloc_loop strict B m ?a"
    by (rule loop_skip[OF pre assms(2)]) (simp add: e)
  also have "\<dots> = Some (Inr (whole_result m ?a s, ?a + 8))"
    by (rule loop_whole[OF blk assms(3,4)]) (use lt e in simp_all)
  finally show ?thesis .
qed

lemma alloc_split_ok:
  assumes "arena m (pre @ (s, False) # post)" and "\<forall>sb\<in>set pre. snd sb \<or> fst sb < B"
    and "B + 32 < s" and "0 < B"
  shows "myalloc_loop strict B m (mem_begin m) =
           Some (Inr (split_result m (mem_begin m + int (span pre)) s B,
                      mem_begin m + int (span pre) + int (s - B) + 8))"
proof -
  let ?a = "mem_begin m + int (span pre)"
  from assms(1) have pre: "chain (cells m) (mem_begin m) pre"
    and blk: "block_at (cells m) ?a (s, False)"
    and e: "mem_end m = mem_begin m + int (span (pre @ (s, False) # post))"
    and lt: "span (pre @ (s, False) # post) < 2 ^ 63"
    by (simp_all add: arena_def chain_append)
  have "myalloc_loop strict B m (mem_begin m) = myalloc_loop strict B m ?a"
    by (rule loop_skip[OF pre assms(2)]) (simp add: e)
  also have "\<dots> = Some (Inr (split_result m ?a s B, ?a + int (s - B) + 8))"
    by (rule loop_split[OF blk assms(3) _ _ assms(4)]) (use lt e in simp_all)
  finally show ?thesis .
qed

section \<open>The merges of myfree\<close>

lemma arena_fields:
  "arena m bs \<Longrightarrow> mem_begin m' = mem_begin m \<Longrightarrow> mem_end m' = mem_end m
     \<Longrightarrow> chain (cells m') (mem_begin m) bs \<Longrightarrow> arena m' bs"
  by (simp add: arena_def)

lemma mark_free_arena:
  assumes "arena m (pre @ (s, True) # post)" and a: "a = mem_begin m + int (span pre)"
  defines "m2 \<equiv> store (store m a \<lparr>size63 = s, busy = False\<rparr>) (a + int s - 8) \<lparr>size63 = s, busy = False\<rparr>"
  shows "arena m2 (pre @ (s, False) # post)"
proof -
  from assms have pre: "chain (cells m) (mem_begin m) pre"
    and blk: "block_at (cells m) a (s, True)"
    and post: "chain (cells m) (a + int s) post"
    and rest: "mem_end m = mem_begin m + int (span (pre @ (s, True) # post))"
              "span (pre @ (s, True) # post) < 2 ^ 63"
    by (simp_all add: arena_def chain_append)
  from blk have sz: "16 \<le> s" "8 dvd s" by (simp_all add: block_at_def sizeof_tag_def)
  have "chain (cells m2) (mem_begin m) pre"
    by (rule chain_cong[OF pre]) (use a sz in \<open>simp add: m2_def\<close>)
  moreover have "block_at (cells m2) a (s, False)"
    using sz by (simp add: block_at_def m2_def sizeof_tag_def)
  moreover have "chain (cells m2) (a + int s) post"
    by (rule chain_cong[OF post]) (use sz in \<open>simp add: m2_def\<close>)
  ultimately show ?thesis
    using rest a by (simp add: arena_def chain_append m2_def)
qed

lemma union_prev_arena:
  assumes ar: "arena m (pre @ (s, False) # post)" and a: "a = mem_begin m + int (span pre)"
  shows "\<exists>m'. union_prev strict m a = Inr (m', mem_begin m + int (span (fst (merge_left pre s))))
           \<and> arena m' (fst (merge_left pre s) @ (snd (merge_left pre s), False) # post)
           \<and> mem_begin m' = mem_begin m \<and> mem_end m' = mem_end m"
proof (cases pre rule: rev_cases)
  case Nil
  then show ?thesis using ar a by (simp add: union_prev_def merge_left_def)
next
  case (snoc pre' x)
  obtain sp bp where x: "x = (sp, bp)" by (cases x)
  let ?q = "mem_begin m + int (span pre')"
  from ar snoc x have pre': "chain (cells m) (mem_begin m) pre'"
    and pb: "block_at (cells m) ?q (sp, bp)"
    and blk: "block_at (cells m) a (s, False)"
    and post: "chain (cells m) (a + int s) post"
    and e: "mem_end m = mem_begin m + int (span pre' + sp + s + span post)"
    and lt: "span pre' + sp + s + span post < 2 ^ 63"
    and aq: "a = ?q + int sp"
    by (simp_all add: arena_def chain_append a algebra_simps)
  from pb blk have sz: "16 \<le> sp" "8 dvd sp" "16 \<le> s" "8 dvd s"
    by (simp_all add: block_at_def sizeof_tag_def)
  from pb have ph: "cells m ?q = \<lparr>size63 = sp, busy = bp\<rparr>"
    and pf: "cells m (a - 8) = \<lparr>size63 = sp, busy = bp\<rparr>"
    by (simp_all add: block_at_def sizeof_tag_def aq)
  from blk have bh: "cells m a = \<lparr>size63 = s, busy = False\<rparr>"
    by (simp add: block_at_def)
  have ne: "a \<noteq> mem_begin m" using aq sz by simp
  have prv: "prev strict m a = Inr ?q" using ne pf aq by simp
  show ?thesis
  proof (cases bp)
    case True
    then show ?thesis
      using ne prv ph ar snoc x a by (simp add: union_prev_def merge_left_def)
  next
    case False
    let ?m' = "store (store m ?q \<lparr>size63 = sp + s, busy = False\<rparr>) (a + int s - 8) \<lparr>size63 = sp + s, busy = False\<rparr>"
    have qe: "?q \<noteq> mem_end m" using e sz by simp
    have md: "(sp + s) mod 2 ^ 63 = sp + s" using lt by simp
    have "union_prev strict m a = Inr (?m', ?q)"
      using ne prv ph bh False qe md aq by (simp add: union_prev_def Let_def algebra_simps)
    moreover have "arena ?m' (pre' @ (sp + s, False) # post)"
    proof -
      have "chain (cells ?m') (mem_begin m) pre'"
        by (rule chain_cong[OF pre']) (use aq sz in simp)
      moreover have "block_at (cells ?m') ?q (sp + s, False)"
        using sz aq by (simp add: block_at_def sizeof_tag_def algebra_simps)
      moreover have "chain (cells ?m') (?q + int (sp + s)) post"
      proof -
        have "chain (cells ?m') (a + int s) post"
          by (rule chain_cong[OF post]) (use aq sz in simp)
        then show ?thesis by (simp add: aq algebra_simps)
      qed
      ultimately show ?thesis using e lt by (simp add: arena_def chain_append algebra_simps)
    qed
    ultimately show ?thesis using False snoc x by (simp add: merge_left_def)
  qed
qed

lemma union_next_arena:
  assumes ar: "arena m (pre @ (s, False) # post)" and a: "a = mem_begin m + int (span pre)"
  shows "\<exists>m'. union_next strict m a = Inr m'
           \<and> arena m' (pre @ (fst (merge_right s post), False) # snd (merge_right s post))
           \<and> mem_begin m' = mem_begin m \<and> mem_end m' = mem_end m"
proof -
  from ar have pre: "chain (cells m) (mem_begin m) pre"
    and blk: "block_at (cells m) a (s, False)"
    and post: "chain (cells m) (a + int s) post"
    and e: "mem_end m = a + int (s + span post)"
    and lt: "span pre + s + span post < 2 ^ 63"
    by (simp_all add: arena_def chain_append a algebra_simps)
  from blk have sz: "16 \<le> s" "8 dvd s" and bh: "cells m a = \<lparr>size63 = s, busy = False\<rparr>"
    by (simp_all add: block_at_def sizeof_tag_def)
  have ne: "a \<noteq> mem_end m" using e sz by simp
  show ?thesis
  proof (cases post)
    case Nil
    then show ?thesis using ne bh e ar by (simp add: union_next_def merge_right_def)
  next
    case (Cons y post')
    obtain sn bn where y: "y = (sn, bn)" by (cases y)
    from post Cons y have nb: "block_at (cells m) (a + int s) (sn, bn)"
      and post': "chain (cells m) (a + int s + int sn) post'"
      by simp_all
    from nb have szn: "16 \<le> sn" "8 dvd sn" and nh: "cells m (a + int s) = \<lparr>size63 = sn, busy = bn\<rparr>"
      by (simp_all add: block_at_def sizeof_tag_def)
    have nne: "a + int s \<noteq> mem_end m" using e Cons y szn by simp
    show ?thesis
    proof (cases bn)
      case True
      then show ?thesis using ne bh nh ar Cons y by (simp add: union_next_def merge_right_def)
    next
      case False
      let ?m' = "store (store m a \<lparr>size63 = s + sn, busy = False\<rparr>) (a + int (s + sn) - 8) \<lparr>size63 = s + sn, busy = False\<rparr>"
      have md: "(s + sn) mod 2 ^ 63 = s + sn" using lt Cons y by simp
      have "union_next strict m a = Inr ?m'"
        using ne nne bh nh False md by (simp add: union_next_def Let_def algebra_simps)
      moreover have "arena ?m' (pre @ (s + sn, False) # post')"
      proof -
        have "chain (cells ?m') (mem_begin m) pre"
          by (rule chain_cong[OF pre]) (use a sz in simp)
        moreover have "block_at (cells ?m') a (s + sn, False)"
          using sz szn by (simp add: block_at_def sizeof_tag_def)
        moreover have "chain (cells ?m') (a + int (s + sn)) post'"
        proof -
          have "chain (cells ?m') (a + int s + int sn) post'"
            by (rule chain_cong[OF post']) (use sz szn in simp)
          then show ?thesis by (simp add: algebra_simps)
        qed
        ultimately show ?thesis
          using e lt Cons y a by (simp add: arena_def chain_append algebra_simps)
      qed
      ultimately show ?thesis using False Cons y by (simp add: merge_right_def)
    qed
  qed
qed

lemma merge_left_span:
  "span (fst (merge_left pre s)) + snd (merge_left pre s) = span pre + s"
  by (cases pre rule: rev_cases) (auto simp: merge_left_def)

lemma free_ok:
  assumes ar: "arena m (pre @ (s, True) # post)" and p: "p = mem_begin m + int (span pre) + 8"
    and nn: "p \<noteq> nullptr"
  shows "\<exists>m'. myfree strict m p = Inr m' \<and> arena m' (free_blocks pre s post)
           \<and> mem_begin m' = mem_begin m \<and> mem_end m' = mem_end m"
proof -
  let ?a = "mem_begin m + int (span pre)"
  let ?m2 = "store (store m ?a \<lparr>size63 = s, busy = False\<rparr>) (?a + int s - 8) \<lparr>size63 = s, busy = False\<rparr>"
  from ar have blk: "block_at (cells m) ?a (s, True)"
    and e: "mem_end m = ?a + int (s + span post)"
    by (simp_all add: arena_def chain_append algebra_simps)
  from blk have sz: "16 \<le> s" and bh: "cells m ?a = \<lparr>size63 = s, busy = True\<rparr>"
    by (simp_all add: block_at_def sizeof_tag_def)
  have ne: "?a \<noteq> mem_end m" using e sz by simp
  have ar2: "arena ?m2 (pre @ (s, False) # post)"
    by (rule mark_free_arena[OF ar refl])
  obtain pre' s' where ml: "merge_left pre s = (pre', s')" by (cases "merge_left pre s")
  obtain s'' post' where mr: "merge_right s' post = (s'', post')" by (cases "merge_right s' post")
  from union_prev_arena[OF ar2, of ?a strict] ml
  obtain m3 where u1: "union_prev strict ?m2 ?a = Inr (m3, mem_begin m + int (span pre'))"
    and ar3: "arena m3 (pre' @ (s', False) # post)"
    and f3: "mem_begin m3 = mem_begin m" "mem_end m3 = mem_end m"
    by auto
  from union_next_arena[OF ar3, of "mem_begin m + int (span pre')" strict] mr f3
  obtain m4 where u2: "union_next strict m3 (mem_begin m + int (span pre')) = Inr m4"
    and ar4: "arena m4 (pre' @ (s'', False) # post')"
    and f4: "mem_begin m4 = mem_begin m" "mem_end m4 = mem_end m"
    by auto
  have "myfree strict m p = Inr m4"
    using nn p e sz bh ne u1 u2
    by (simp add: myfree_def from_user_mem_def sizeof_tag_def Let_def)
  then show ?thesis
    using ar4 f4 ml mr by (simp add: free_blocks_def)
qed

section \<open>Stray pointers\<close>


lemma union_prev_relaxed: "\<exists>m' b'. union_prev False m b = Inr (m', b')"
  by (simp add: union_prev_def Let_def)


text \<open>
  A call of \<open>myfree\<close> without assertions, on a store with \<open>tags_aligned\<close> and with a
  pointer on the grid, stays on the grid: states that agree on the grid give results
  that agree on the grid, nothing off the grid changes, and \<open>tags_aligned\<close> holds
  afterwards (lemma \<open>myfree_grid\<close>). On such calls the store of this theory and the
  byte memory of the source do the same.
\<close>

lemma off_grid_kept_refl [simp]: "off_grid_kept m m"
  by (simp add: off_grid_kept_def)



lemma on_grid_store [simp]: "on_grid (store m a t) x = on_grid m x"
  by (simp add: on_grid_def)







lemma same_grid_on: "same_grid m n \<Longrightarrow> on_grid n a = on_grid m a"
  by (simp add: same_grid_def on_grid_def)









section \<open>Calls on a valid arena\<close>

lemma walk_chain:
  assumes "chain (cells m) a bs" and "a + int (span bs) = mem_end m"
  shows "walk strict m a = Some (Inr (layout a bs))"
  using assms
proof (induction bs arbitrary: a)
  case Nil
  then show ?case by (subst walk.simps) simp
next
  case (Cons sb bs)
  from Cons.prems(1) have b: "block_at (cells m) a sb" and c: "chain (cells m) (a + int (fst sb)) bs"
    by simp_all
  from b have hd: "cells m a = \<lparr>size63 = fst sb, busy = snd sb\<rparr>" and sz: "16 \<le> fst sb"
    by (simp_all add: block_at_def sizeof_tag_def)
  from Cons.prems(2) sz have ne: "a \<noteq> mem_end m" by auto
  have "walk strict m (a + int (fst sb)) = Some (Inr (layout (a + int (fst sb)) bs))"
    using Cons.prems(2) by (intro Cons.IH[OF c]) (simp add: algebra_simps)
  then show ?case using ne hd by (subst walk.simps) simp
qed

lemma walk_arena:
  "arena m bs \<Longrightarrow> walk strict m (mem_begin m) = Some (Inr (layout (mem_begin m) bs))"
  by (rule walk_chain) (simp_all add: arena_def)

lemma setup_arena:
  assumes "16 \<le> len" and "8 dvd len" and "len < 2 ^ 63" and "buf \<noteq> nullptr"
  shows "\<exists>m. mysetup strict (initial h) buf len = Inr m \<and> arena m [(len, False)]
           \<and> mem_begin m = buf"
  using assms
  by (simp add: mysetup_def initial_def Let_def arena_def block_at_def sizeof_tag_def store_def)

lemma request_size_dvd: "8 dvd request_size sz"
  by (simp add: request_size_def)

lemma myalloc_split:
  assumes "arena m (pre @ (s, False) # post)" and "0 < sz"
    and "skipped (request_size sz) pre"
    and "request_size sz + 32 < s" and "16 \<le> request_size sz"
  shows "\<exists>m'. myalloc strict m sz =
                 Some (Inr (m', mem_begin m + int (span pre) + int (s - request_size sz) + 8))
           \<and> arena m' (pre @ (s - request_size sz, False) # (request_size sz, True) # post)
           \<and> mem_begin m' = mem_begin m \<and> mem_end m' = mem_end m"
proof -
  let ?B = "request_size sz"
  let ?m' = "split_result m (mem_begin m + int (span pre)) s ?B"
  have sk: "\<forall>sb\<in>set pre. snd sb \<or> fst sb < ?B" using assms(3) by (simp add: skipped_iff)
  have pos: "0 < ?B" using assms(5) by simp
  have "myalloc strict m sz =
          Some (Inr (?m', mem_begin m + int (span pre) + int (s - ?B) + 8))"
    using assms(2) alloc_split_ok[OF assms(1) sk assms(4) pos, of strict]
    by (simp add: myalloc_def)
  moreover have "arena ?m' (pre @ (s - ?B, False) # (?B, True) # post)"
    by (rule arena_split[OF assms(1) refl assms(4,5) request_size_dvd])
  ultimately show ?thesis by (intro exI[of _ ?m']) simp
qed

lemma myalloc_whole:
  assumes "arena m (pre @ (s, False) # post)" and "0 < sz"
    and "skipped (request_size sz) pre"
    and "request_size sz \<le> s" and "s \<le> request_size sz + 32"
  shows "\<exists>m'. myalloc strict m sz = Some (Inr (m', mem_begin m + int (span pre) + 8))
           \<and> arena m' (pre @ (s, True) # post)
           \<and> mem_begin m' = mem_begin m \<and> mem_end m' = mem_end m"
proof -
  let ?B = "request_size sz"
  let ?m' = "whole_result m (mem_begin m + int (span pre)) s"
  have sk: "\<forall>sb\<in>set pre. snd sb \<or> fst sb < ?B" using assms(3) by (simp add: skipped_iff)
  have "myalloc strict m sz = Some (Inr (?m', mem_begin m + int (span pre) + 8))"
    using assms(2) alloc_whole_ok[OF assms(1) sk assms(4,5), of strict]
    by (simp add: myalloc_def)
  moreover have "arena ?m' (pre @ (s, True) # post)"
    by (rule arena_whole[OF assms(1) refl])
  ultimately show ?thesis by (intro exI[of _ ?m']) simp
qed

lemma myalloc_none:
  assumes "arena m bs" and "skipped (request_size sz) bs"
  shows "myalloc strict m sz = Some (Inr (m, nullptr))"
  using alloc_none[OF assms(1), of "request_size sz" strict] assms(2)
  by (simp add: myalloc_def skipped_iff)

lemma request_sizes [simp]:
  "request_size 16 = 32" "request_size 512 = 528" "request_size 1024 = 1040" "request_size 12 = 32"
  by (simp_all add: request_size_def sizeof_tag_def)

lemma bind_run_simps [simp]:
  "bind_run None f = None" "bind_run (Some (Inl e)) f = Some (Inl e)" "bind_run (Some (Inr v)) f = f v"
  by (simp_all add: bind_run_def)

section \<open>The run of test\_myalloc\<close>

lemma free_step:
  assumes "arena m (pre @ (s, True) # post)" and "mem_begin m = buf" and "0 < buf"
    and "p = buf + int (span pre) + 8"
  shows "\<exists>m'. myfree strict m p = Inr m' \<and> arena m' (free_blocks pre s post)
           \<and> mem_begin m' = buf"
proof -
  have "p \<noteq> nullptr" using assms(3,4) by (simp add: nullptr_def)
  with free_ok[OF assms(1), of p strict] assms(2,4) show ?thesis by auto
qed

lemma free_three:
  assumes ar: "arena m (pre1 @ (s1, True) # post1)" and b: "mem_begin m = buf" and pos: "0 < buf"
    and p1: "p1 = buf + int (span pre1) + 8"
    and e2: "free_blocks pre1 s1 post1 = pre2 @ (s2, True) # post2"
    and p2: "p2 = buf + int (span pre2) + 8"
    and e3: "free_blocks pre2 s2 post2 = pre3 @ (s3, True) # post3"
    and p3: "p3 = buf + int (span pre3) + 8"
  shows "\<exists>m'. free_all strict m [p1, p2, p3] = Inr m' \<and> arena m' (free_blocks pre3 s3 post3)
           \<and> mem_begin m' = buf"
proof -
  from free_step[OF ar b pos p1, of strict] e2
  obtain m1 where f1: "myfree strict m p1 = Inr m1"
    and a1: "arena m1 (pre2 @ (s2, True) # post2)" and b1: "mem_begin m1 = buf"
    by auto
  from free_step[OF a1 b1 pos p2, of strict] e3
  obtain m2 where f2: "myfree strict m1 p2 = Inr m2"
    and a2: "arena m2 (pre3 @ (s3, True) # post3)" and b2: "mem_begin m2 = buf"
    by auto
  from free_step[OF a2 b2 pos p3, of strict]
  obtain m3 where f3: "myfree strict m2 p3 = Inr m3"
    and a3: "arena m3 (free_blocks pre3 s3 post3)" and b3: "mem_begin m3 = buf"
    by auto
  show ?thesis using f1 f2 f3 a3 b3 by simp
qed

lemma test_allocs_run:
  assumes "0 < buf"
  shows "\<exists>m. test_allocs strict (initial h) buf = Some (Inr (m, buf + 1000, buf + 472, nullptr, buf + 440))
           \<and> arena m [(432, False), (32, True), (528, True), (32, True)]
           \<and> mem_begin m = buf"
proof -
  have nn: "buf \<noteq> nullptr" "buf + 1000 \<noteq> nullptr" "buf + 472 \<noteq> nullptr" "buf + 440 \<noteq> nullptr"
    using assms by (simp_all add: nullptr_def)
  from setup_arena[OF _ _ _ nn(1), of 1024 strict h]
  obtain ms where s: "mysetup strict (initial h) buf 1024 = Inr ms"
    and ar: "arena ms ([] @ (1024, False) # [])" and b: "mem_begin ms = buf"
    by auto
  from myalloc_split[OF ar, of 16 strict] b
  obtain m1 where a1: "myalloc strict ms 16 = Some (Inr (m1, buf + 1000))"
    and ar1: "arena m1 ([] @ (992, False) # [(32, True)])" and b1: "mem_begin m1 = buf"
    by auto
  from myalloc_split[OF ar1, of 512 strict] b1
  obtain m2 where a2: "myalloc strict m1 512 = Some (Inr (m2, buf + 472))"
    and ar2: "arena m2 ([] @ (464, False) # [(528, True), (32, True)])" and b2: "mem_begin m2 = buf"
    by auto
  have a3: "myalloc strict m2 1024 = Some (Inr (m2, nullptr))"
    using ar2 by (intro myalloc_none[of _ "[(464, False), (528, True), (32, True)]"]) simp_all
  from myalloc_split[OF ar2, of 12 strict] b2
  obtain m4 where a4: "myalloc strict m2 12 = Some (Inr (m4, buf + 440))"
    and ar4: "arena m4 [(432, False), (32, True), (528, True), (32, True)]" and b4: "mem_begin m4 = buf"
    by auto
  have "test_allocs strict (initial h) buf = Some (Inr (m4, buf + 1000, buf + 472, nullptr, buf + 440))"
    using s a1 a2 a3 a4 nn by (simp add: test_allocs_def)
  then show ?thesis using ar4 b4 by blast
qed

section \<open>Block lists\<close>

lemma first_fit_cases:
  "skipped B bs \<or> (\<exists>pre s post. bs = pre @ (s, False) # post \<and> skipped B pre \<and> B \<le> s)"
proof (induction bs)
  case Nil
  then show ?case by simp
next
  case (Cons sb bs)
  obtain s b where sb: "sb = (s, b)" by (cases sb)
  show ?case
  proof (cases "b \<or> s < B")
    case True
    from Cons.IH show ?thesis
    proof
      assume "skipped B bs"
      with True sb show ?thesis by simp
    next
      assume "\<exists>pre s post. bs = pre @ (s, False) # post \<and> skipped B pre \<and> B \<le> s"
      then obtain pre s' post where "bs = pre @ (s', False) # post" "skipped B pre" "B \<le> s'"
        by blast
      with True sb have "sb # bs = (sb # pre) @ (s', False) # post \<and> skipped B (sb # pre) \<and> B \<le> s'"
        by simp
      then show ?thesis by blast
    qed
  next
    case False
    with sb have "sb # bs = [] @ (s, False) # bs \<and> skipped B [] \<and> B \<le> s" by simp
    then show ?thesis by blast
  qed
qed

lemma payloads_split:
  "p \<in> set (payloads a bs) \<Longrightarrow>
     \<exists>pre s b post. bs = pre @ (s, b) # post \<and> p = a + int (span pre) + 8"
proof (induction bs arbitrary: a)
  case Nil
  then show ?case by simp
next
  case (Cons sb bs)
  obtain s b where sb: "sb = (s, b)" by (cases sb)
  from Cons.prems have "p = a + 8 \<or> p \<in> set (payloads (a + int (fst sb)) bs)"
    by (simp add: sizeof_tag_def)
  then show ?case
  proof
    assume "p = a + 8"
    with sb have "sb # bs = [] @ (s, b) # bs \<and> p = a + int (span []) + 8" by simp
    then show ?thesis by blast
  next
    assume "p \<in> set (payloads (a + int (fst sb)) bs)"
    from Cons.IH[OF this] obtain pre s' b' post
      where "bs = pre @ (s', b') # post" "p = a + int (fst sb) + int (span pre) + 8"
      by blast
    then have "sb # bs = (sb # pre) @ (s', b') # post \<and> p = a + int (span (sb # pre)) + 8"
      by simp
    then show ?thesis by blast
  qed
qed

lemma naf_append:
  "no_adjacent_free (xs @ y # ys) = (no_adjacent_free (xs @ [y]) \<and> no_adjacent_free (y # ys))"
  by (induction xs rule: no_adjacent_free.induct) simp_all

lemma naf_snoc_busy: "no_adjacent_free (xs @ [(s, True)]) = no_adjacent_free xs"
  by (induction xs rule: no_adjacent_free.induct) simp_all

lemma naf_cons_busy: "no_adjacent_free ((s, True) # ys) = no_adjacent_free ys"
  by (cases ys) simp_all

lemma naf_snoc_size: "no_adjacent_free (xs @ [(s, b)]) = no_adjacent_free (xs @ [(s', b)])"
  by (induction xs rule: no_adjacent_free.induct) simp_all

lemma naf_cons_size: "no_adjacent_free ((s, b) # ys) = no_adjacent_free ((s', b) # ys)"
  by (cases ys) simp_all

lemma naf_snoc_free:
  "no_adjacent_free (xs @ [(s, False)]) = (no_adjacent_free xs \<and> (xs = [] \<or> snd (last xs)))"
  by (induction xs rule: no_adjacent_free.induct) auto

lemma naf_cons_free:
  "no_adjacent_free ((s, False) # ys) = (no_adjacent_free ys \<and> (ys = [] \<or> snd (hd ys)))"
  by (cases ys) auto

lemma naf_merge_left:
  assumes "no_adjacent_free pre"
  shows "no_adjacent_free (fst (merge_left pre s) @ [(snd (merge_left pre s), False)])"
proof (cases "pre \<noteq> [] \<and> \<not> snd (last pre)")
  case True
  then obtain pre' sp where pre: "pre = pre' @ [(sp, False)]"
    by (cases pre rule: rev_cases) auto
  have "no_adjacent_free (pre' @ [(sp + s, False)])"
    using assms pre naf_snoc_size[of pre' sp False "sp + s"] by simp
  then show ?thesis using pre by (simp add: merge_left_def)
next
  case False
  then show ?thesis using assms by (auto simp: merge_left_def naf_snoc_free)
qed

lemma naf_merge_right:
  assumes "no_adjacent_free post"
  shows "no_adjacent_free ((fst (merge_right s post), False) # snd (merge_right s post))"
proof (cases post)
  case Nil
  then show ?thesis by (simp add: merge_right_def)
next
  case (Cons y post')
  obtain sn bn where y: "y = (sn, bn)" by (cases y)
  show ?thesis
  proof (cases bn)
    case True
    then show ?thesis using assms Cons y by (simp add: merge_right_def)
  next
    case False
    have "no_adjacent_free ((s + sn, False) # post')"
      using assms Cons y False naf_cons_size[of sn False post' "s + sn"] by simp
    then show ?thesis using Cons y False by (simp add: merge_right_def)
  qed
qed

lemma naf_free_blocks:
  assumes "no_adjacent_free (pre @ (s, True) # post)"
  shows "no_adjacent_free (free_blocks pre s post)"
proof -
  from assms have p: "no_adjacent_free pre" and q: "no_adjacent_free post"
    using naf_append[of pre "(s, True)" post] by (simp_all add: naf_snoc_busy naf_cons_busy)
  obtain pre' s' where ml: "merge_left pre s = (pre', s')" by (cases "merge_left pre s")
  obtain s'' post' where mr: "merge_right s' post = (s'', post')" by (cases "merge_right s' post")
  have "no_adjacent_free (pre' @ [(s', False)])" using naf_merge_left[OF p, of s] ml by simp
  then have "no_adjacent_free (pre' @ [(s'', False)])"
    using naf_snoc_size[of pre' s' False s''] by simp
  moreover have "no_adjacent_free ((s'', False) # post')" using naf_merge_right[OF q, of s'] mr by simp
  ultimately have "no_adjacent_free (pre' @ (s'', False) # post')"
    using naf_append[of pre' "(s'', False)" post'] by blast
  then show ?thesis using ml mr by (simp add: free_blocks_def)
qed

lemma free_blocks_restores:
  assumes "no_adjacent_free (pre @ (s, False) # post)"
  shows "free_blocks pre s post = pre @ (s, False) # post"
    and "B \<le> s \<Longrightarrow> free_blocks (pre @ [(s - B, False)]) B post = pre @ (s, False) # post"
proof -
  from assms have l: "pre = [] \<or> snd (last pre)" and r: "post = [] \<or> snd (hd post)"
    using naf_append[of pre "(s, False)" post] by (simp_all add: naf_snoc_free naf_cons_free)
  have mr: "merge_right s post = (s, post)"
    using r by (cases post) (auto simp: merge_right_def)
  have ml: "merge_left pre s = (pre, s)" using l by (auto simp: merge_left_def)
  show "free_blocks pre s post = pre @ (s, False) # post"
    using ml mr by (simp add: free_blocks_def)
  show "free_blocks (pre @ [(s - B, False)]) B post = pre @ (s, False) # post" if "B \<le> s"
    using mr that by (simp add: free_blocks_def merge_left_def)
qed

section \<open>The outcomes of the two calls\<close>

lemma request_size_ok:
  "sz + 2 * sizeof_tag + 7 < 2 ^ 64 \<Longrightarrow> 0 < sz \<Longrightarrow> 16 \<le> request_size sz"
  using request_size_min[of sz] by (simp add: request_size_eq)

lemma myalloc_cases:
  assumes "arena m bs" and "0 < sz" and "16 \<le> request_size sz"
  shows "(skipped (request_size sz) bs \<and> myalloc strict m sz = Some (Inr (m, nullptr)))
       \<or> (\<exists>pre s post m'. bs = pre @ (s, False) # post \<and> request_size sz \<le> s
             \<and> myalloc strict m sz = Some (Inr (m', mem_begin m + int (span pre) + 8))
             \<and> arena m' (pre @ (s, True) # post)
             \<and> mem_begin m' = mem_begin m \<and> mem_end m' = mem_end m)
       \<or> (\<exists>pre s post m'. bs = pre @ (s, False) # post \<and> request_size sz \<le> s
             \<and> myalloc strict m sz =
                 Some (Inr (m', mem_begin m + int (span (pre @ [(s - request_size sz, False)])) + 8))
             \<and> arena m' ((pre @ [(s - request_size sz, False)]) @ (request_size sz, True) # post)
             \<and> mem_begin m' = mem_begin m \<and> mem_end m' = mem_end m)"
proof -
  let ?B = "request_size sz"
  from first_fit_cases[of ?B bs] show ?thesis
  proof
    assume sk: "skipped ?B bs"
    then show ?thesis using myalloc_none[OF assms(1) sk, of strict] by simp
  next
    assume "\<exists>pre s post. bs = pre @ (s, False) # post \<and> skipped ?B pre \<and> ?B \<le> s"
    then obtain pre s post where bs: "bs = pre @ (s, False) # post"
      and sk: "skipped ?B pre" and fit: "?B \<le> s"
      by blast
    have ar: "arena m (pre @ (s, False) # post)" using assms(1) bs by simp
    show ?thesis
    proof (cases "s \<le> ?B + 32")
      case True
      from myalloc_whole[OF ar assms(2) sk fit True, of strict] bs fit
      show ?thesis by blast
    next
      case False
      then have big: "?B + 32 < s" by simp
      from myalloc_split[OF ar assms(2) sk big assms(3), of strict]
      obtain m' where "myalloc strict m sz =
                 Some (Inr (m', mem_begin m + int (span pre) + int (s - ?B) + 8))"
        and "arena m' (pre @ (s - ?B, False) # (?B, True) # post)"
        and "mem_begin m' = mem_begin m" "mem_end m' = mem_end m"
        by blast
      then have "bs = pre @ (s, False) # post \<and> ?B \<le> s
             \<and> myalloc strict m sz =
                 Some (Inr (m', mem_begin m + int (span (pre @ [(s - ?B, False)])) + 8))
             \<and> arena m' ((pre @ [(s - ?B, False)]) @ (?B, True) # post)
             \<and> mem_begin m' = mem_begin m \<and> mem_end m' = mem_end m"
        using bs fit by (simp add: algebra_simps)
      then show ?thesis by blast
    qed
  qed
qed

text \<open>
  The round trip for requests whose size computation does not wrap: in an arena that
  satisfies all four invariants, freeing the pointer that \<open>myalloc\<close> has just returned
  gives back the block list the arena had before.
\<close>

lemma round_trip_restores:
  assumes ar: "arena m bs" and naf: "no_adjacent_free bs"
    and ok: "sz + 2 * sizeof_tag + 7 < 2 ^ 64"
    and al: "myalloc strict m sz = Some (Inr (m1, p))" and nn: "p \<noteq> nullptr"
  shows "\<exists>m2. myfree strict m1 p = Inr m2 \<and> arena m2 bs
           \<and> mem_begin m2 = mem_begin m \<and> mem_end m2 = mem_end m"
proof -
  let ?B = "request_size sz"
  have pos: "0 < sz" using al nn by (cases "sz = 0") (simp_all add: myalloc_def)
  have B: "16 \<le> ?B" by (rule request_size_ok[OF ok pos])
  from myalloc_cases[OF ar pos B, of strict] show ?thesis
  proof (elim disjE exE conjE)
    assume "myalloc strict m sz = Some (Inr (m, nullptr))"
    with al nn show ?thesis by simp
  next
    fix pre s post m'
    assume bs: "bs = pre @ (s, False) # post"
      and r: "myalloc strict m sz = Some (Inr (m', mem_begin m + int (span pre) + 8))"
      and ar': "arena m' (pre @ (s, True) # post)"
      and f: "mem_begin m' = mem_begin m" "mem_end m' = mem_end m"
    from r al have eq: "m1 = m'" "p = mem_begin m' + int (span pre) + 8" using f by simp_all
    from free_ok[OF ar' eq(2) nn, of strict] free_blocks_restores(1)[of pre s post] naf bs eq f
    show ?thesis by auto
  next
    fix pre s post m'
    assume bs: "bs = pre @ (s, False) # post" and fit: "?B \<le> s"
      and r: "myalloc strict m sz =
                 Some (Inr (m', mem_begin m + int (span (pre @ [(s - ?B, False)])) + 8))"
      and ar': "arena m' ((pre @ [(s - ?B, False)]) @ (?B, True) # post)"
      and f: "mem_begin m' = mem_begin m" "mem_end m' = mem_end m"
    from r al have eq: "m1 = m'" "p = mem_begin m' + int (span (pre @ [(s - ?B, False)])) + 8"
      using f by simp_all
    from free_ok[OF ar' eq(2) nn, of strict] free_blocks_restores(2)[of pre s post ?B] naf bs eq f fit
    show ?thesis by auto
  qed
qed

lemma myfree_cases:
  assumes ar: "arena m bs" and ok: "free_arg_ok m bs p" and fr: "myfree strict m p = Inr m'"
  shows "m' = m \<or> (\<exists>pre s post. bs = pre @ (s, True) # post
                      \<and> arena m' (free_blocks pre s post)
                      \<and> mem_begin m' = mem_begin m \<and> mem_end m' = mem_end m)"
proof (cases "p = nullptr \<or> p < mem_begin m \<or> mem_end m \<le> p")
  case True
  then show ?thesis using fr by (auto simp: myfree_def split: if_splits)
next
  case False
  with ok have "p \<in> set (payloads (mem_begin m) bs)" by (simp add: free_arg_ok_def)
  from payloads_split[OF this] obtain pre s b post
    where bs: "bs = pre @ (s, b) # post" and p: "p = mem_begin m + int (span pre) + 8"
    by blast
  show ?thesis
  proof (cases b)
    case True
    from False have nn: "p \<noteq> nullptr" by simp
    from ar bs True have ar': "arena m (pre @ (s, True) # post)" by simp
    from free_ok[OF ar' p nn, of strict] fr bs True
    show ?thesis by auto
  next
    case False
    from ar bs have "arena m (pre @ (s, b) # post)" by simp
    from arena_blocks[OF this] False p
    have "\<not> busy (cells m (from_user_mem p))"
      by (simp add: block_at_def from_user_mem_def sizeof_tag_def)
    then show ?thesis using fr by (auto simp: myfree_def Let_def split: if_splits)
  qed
qed

section \<open>Example states\<close>

lemma zeroed_simp [simp]: "zeroed a = \<lparr>size63 = 0, busy = False\<rparr>"
  by (simp add: zeroed_def)

lemma crowded_arena: "arena crowded [(920, False), (40, True), (24, False), (40, True)]"
  by (simp add: arena_def block_at_def crowded_def sizeof_tag_def)

lemma paired_arena: "arena paired [(960, False), (32, True), (32, True)]"
  by (simp add: arena_def block_at_def paired_def sizeof_tag_def)

lemma crowded_free_968:
  "myfree strict crowded 968 = Inr (store (store (store (store (store (store crowded
        960 \<lparr>size63 = 40, busy = False\<rparr>) 992 \<lparr>size63 = 40, busy = False\<rparr>)
        960 \<lparr>size63 = 80, busy = False\<rparr>) 1032 \<lparr>size63 = 80, busy = False\<rparr>)
        960 \<lparr>size63 = 80, busy = False\<rparr>) 1032 \<lparr>size63 = 80, busy = False\<rparr>)"
  by (simp add: myfree_def union_prev_def union_next_def crowded_def from_user_mem_def
      sizeof_tag_def nullptr_def Let_def tail_def next_blk_def prev_def prev_tail_def head_def)

lemmas run_defs = myfree_def union_prev_def union_next_def from_user_mem_def
  sizeof_tag_def nullptr_def Let_def tail_def next_blk_def prev_def prev_tail_def head_def

lemma mem_eqI: "cells a = cells b \<Longrightarrow> mem_begin a = mem_begin b \<Longrightarrow> mem_end a = mem_end b \<Longrightarrow> (a::mem) = b"
  by simp

lemma fresh_alloc:
  assumes "0 < sz" and "request_size sz + 32 < 1024" and "16 \<le> request_size sz"
  shows "myalloc strict (fresh 1024) sz
           = Some (Inr (split_result (fresh 1024) 8 1024 (request_size sz),
                        8 + int (1024 - request_size sz) + 8))"
proof -
  have ar: "arena (fresh 1024) ([] @ (1024, False) # [])" by (simp add: arena_fresh)
  have b: "mem_begin (fresh 1024) = 8" by (simp add: fresh_def)
  show ?thesis
    using alloc_split_ok[OF ar _ assms(2), of strict] assms b by (simp add: myalloc_def)
qed

lemma paired_reached:
  "bind_run (myalloc strict (fresh 1024) 16) (\<lambda>(m1, a). myalloc strict m1 16)
     = Some (Inr (paired, 976))"
proof -
  let ?m1 = "split_result (fresh 1024) 8 1024 32"
  have a1: "myalloc strict (fresh 1024) 16 = Some (Inr (?m1, 1008))"
    using fresh_alloc[of 16 strict] by simp
  have ar0: "arena (fresh 1024) ([] @ (1024, False) # [])" by (simp add: arena_fresh)
  have ar1: "arena ?m1 ([] @ (992, False) # [(32, True)])"
    using arena_split[OF ar0, of 8 32] by (simp add: fresh_def)
  have b1: "mem_begin ?m1 = 8" by (simp add: fresh_def)
  have a2: "myalloc strict ?m1 16 = Some (Inr (split_result ?m1 8 992 32, 976))"
    using alloc_split_ok[OF ar1, of 32 strict] b1 by (simp add: myalloc_def)
  have "split_result ?m1 8 992 32 = paired"
    by (rule mem_eqI) (auto simp: split_result_def fresh_def paired_def)
  then show ?thesis using a1 a2 by simp
qed

lemma crowded_reached:
  "bind_run (myalloc strict (fresh 1024) 24) (\<lambda>(m1, a).
     bind_run (myalloc strict m1 8) (\<lambda>(m2, b).
       bind_run (myalloc strict m2 24) (\<lambda>(m3, c). Some (myfree strict m3 b))))
     = Some (Inr crowded)"
proof -
  have rs: "request_size 24 = 40" "request_size 8 = 24"
    by (simp_all add: request_size_def sizeof_tag_def)
  let ?m1 = "split_result (fresh 1024) 8 1024 40"
  let ?m2 = "split_result ?m1 8 984 24"
  let ?m3 = "split_result ?m2 8 960 40"
  have a1: "myalloc strict (fresh 1024) 24 = Some (Inr (?m1, 1000))"
    using fresh_alloc[of 24 strict] by (simp add: rs)
  have ar0: "arena (fresh 1024) ([] @ (1024, False) # [])" by (simp add: arena_fresh)
  have ar1: "arena ?m1 ([] @ (984, False) # [(40, True)])"
    using arena_split[OF ar0, of 8 40] by (simp add: fresh_def)
  have b1: "mem_begin ?m1 = 8" by (simp add: fresh_def)
  have a2: "myalloc strict ?m1 8 = Some (Inr (?m2, 976))"
    using alloc_split_ok[OF ar1, of 24 strict] b1 by (simp add: myalloc_def rs)
  have ar2: "arena ?m2 ([] @ (960, False) # [(24, True), (40, True)])"
    using arena_split[OF ar1, of 8 24] b1 by simp
  have a3: "myalloc strict ?m2 24 = Some (Inr (?m3, 936))"
    using alloc_split_ok[OF ar2, of 40 strict] b1 by (simp add: myalloc_def rs)
  have ar3: "arena ?m3 ([(920, False), (40, True)] @ (24, True) # [(40, True)])"
    using arena_split[OF ar2, of 8 40] b1 by simp
  let ?m4 = "store (store ?m3 968 \<lparr>size63 = 24, busy = False\<rparr>) 984 \<lparr>size63 = 24, busy = False\<rparr>"
  have f: "myfree strict ?m3 976 = Inr ?m4"
    by (simp add: run_defs split_result_def fresh_def)
  have "?m4 = crowded"
    by (rule mem_eqI) (auto simp: split_result_def fresh_def crowded_def)
  then show ?thesis using a1 a2 a3 f by simp
qed

lemma gapped_arena: "arena gapped [(64, False), (480, True), (480, False)]"
  by (simp add: arena_def block_at_def gapped_def sizeof_tag_def)

lemma gapped_reached:
  "bind_run (myalloc strict (fresh 1024) 464) (\<lambda>(m1, a).
     bind_run (myalloc strict m1 464) (\<lambda>(m2, b). Some (myfree strict m2 a)))
     = Some (Inr gapped)"
proof -
  have rs: "request_size 464 = 480" by (simp add: request_size_def sizeof_tag_def)
  let ?m1 = "split_result (fresh 1024) 8 1024 480"
  let ?m2 = "split_result ?m1 8 544 480"
  have a1: "myalloc strict (fresh 1024) 464 = Some (Inr (?m1, 560))"
    using fresh_alloc[of 464 strict] by (simp add: rs)
  have ar0: "arena (fresh 1024) ([] @ (1024, False) # [])" by (simp add: arena_fresh)
  have ar1: "arena ?m1 ([] @ (544, False) # [(480, True)])"
    using arena_split[OF ar0, of 8 480] by (simp add: fresh_def)
  have b1: "mem_begin ?m1 = 8" by (simp add: fresh_def)
  have a2: "myalloc strict ?m1 464 = Some (Inr (?m2, 80))"
    using alloc_split_ok[OF ar1, of 480 strict] b1 by (simp add: myalloc_def rs)
  let ?m3 = "store (store ?m2 552 \<lparr>size63 = 480, busy = False\<rparr>) 1024 \<lparr>size63 = 480, busy = False\<rparr>"
  have f: "myfree strict ?m2 560 = Inr ?m3"
    by (simp add: run_defs split_result_def fresh_def)
  have "?m3 = gapped"
    by (rule mem_eqI) (auto simp: split_result_def fresh_def gapped_def)
  then show ?thesis using a1 a2 f by simp
qed

text \<open>
  Out of memory for requests whose size computation does not wrap: when every block
  is busy or smaller than the block size of the specification, \<open>myalloc\<close> returns null
  and the state it was given.
\<close>

lemma out_of_memory:
  assumes "arena m bs" and "sz + 2 * sizeof_tag + 7 < 2 ^ 64"
    and "skipped (roundUp8 (sz + 2 * sizeof_tag)) bs"
  shows "myalloc strict m sz = Some (Inr (m, nullptr))"
  using myalloc_none[OF assms(1), of sz strict] assms(2,3) by (simp add: request_size_eq)

lemma fresh_fields [simp]: "mem_begin (fresh len) = 8" "mem_end (fresh len) = 8 + int len"
  by (simp_all add: fresh_def)

section \<open>The claims\<close>

subsection \<open>Splitting a free block\<close>

text \<open>
  Claim C1. Let \<open>B\<close> be the request plus two tags, rounded up to a multiple of 8. When
  the scan from \<open>mem::begin\<close> passes only blocks that are busy or smaller than \<open>B\<close>
  (in particular: only busy blocks) and then reaches a free block of size
  \<open>s > B + 4 * sizeof(tag)\<close>, \<open>myalloc\<close> shrinks that block in place to \<open>s - B\<close> (still
  free, same start, footer rewritten), writes a busy block of exactly \<open>B\<close> bytes over
  the tail of the old block, header and footer alike, and returns the payload address
  of the new block. The blocks before and after are as they were. This holds with and
  without assertions.
\<close>

theorem split_carves_tail:
  fixes sz :: nat
  defines "B \<equiv> roundUp8 (sz + 2 * sizeof_tag)"
  assumes "arena m (pre @ (s, False) # post)"
    and "0 < sz"
    and "skipped B pre"
    and "B + 4 * sizeof_tag < s"
  shows "\<exists>m'. myalloc strict m sz =
                 Some (Inr (m', mem_begin m + int (span pre) + int (s - B) + int sizeof_tag))
           \<and> arena m' (pre @ (s - B, False) # (B, True) # post)
           \<and> block_at (cells m') (mem_begin m + int (span pre)) (s - B, False)
           \<and> block_at (cells m') (mem_begin m + int (span pre) + int (s - B)) (B, True)
           \<and> mem_begin m' = mem_begin m \<and> mem_end m' = mem_end m"
proof -
  let ?a = "mem_begin m + int (span pre)"
  let ?m' = "split_result m ?a s B"
  have s63: "s < 2 ^ 63" by (rule arena_block_bound[OF assms(2)])
  have sk: "\<forall>sb\<in>set pre. snd sb \<or> fst sb < B" using assms(4) by (simp add: skipped_iff)
  have fit: "B + 32 < s" using assms(5) by (simp add: sizeof_tag_def)
  have "sz + 2 * sizeof_tag \<le> B" using roundUp8_facts(2) by (simp add: B_def)
  with fit s63 have "sz + 2 * sizeof_tag + 7 < 2 ^ 64" by simp
  then have rs: "request_size sz = B" by (simp add: request_size_eq B_def)
  have B: "16 \<le> B" "8 dvd B" "0 < B"
    using request_size_min[OF assms(3)] roundUp8_facts(1) by (simp_all add: B_def)
  have run: "myalloc strict m sz = Some (Inr (?m', ?a + int (s - B) + int sizeof_tag))"
    using assms(3) rs alloc_split_ok[OF assms(2) sk fit B(3), of strict]
    by (simp add: myalloc_def sizeof_tag_def)
  have ar: "arena ?m' (pre @ (s - B, False) # (B, True) # post)"
    by (rule arena_split[OF assms(2) refl fit B(1,2)])
  have b1: "block_at (cells ?m') ?a (s - B, False)"
    by (rule arena_blocks[OF ar, simplified])
  have b2: "block_at (cells ?m') (?a + int (s - B)) (B, True)"
    using arena_blocks[of ?m' "pre @ [(s - B, False)]" "(B, True)" post] ar
    by (simp add: add.assoc)
  show ?thesis using run ar b1 b2 by (intro exI[of _ ?m']) simp
qed

theorem split_carves_tail_witness:
  "arena gapped ([(64, False), (480, True)] @ (480, False) # [])
   \<and> (0::nat) < 100
   \<and> skipped (roundUp8 (100 + 2 * sizeof_tag)) [(64, False), (480, True)]
   \<and> roundUp8 (100 + 2 * sizeof_tag) + 4 * sizeof_tag < 480
   \<and> (\<exists>m'. myalloc True gapped 100 = Some (Inr (m', 920))
          \<and> arena m' [(64, False), (480, True), (360, False), (120, True)]
          \<and> block_at (cells m') 552 (360, False)
          \<and> block_at (cells m') 912 (120, True))"
proof -
  have r: "roundUp8 116 = 120" by (simp add: roundUp8_def)
  have h1: "arena gapped ([(64, False), (480, True)] @ (480, False) # [])"
    using gapped_arena by simp
  have h2: "(0::nat) < 100" by simp
  have h4: "skipped (roundUp8 (100 + 2 * sizeof_tag)) [(64, False), (480, True)]"
    by (simp add: r sizeof_tag_def)
  have h5: "roundUp8 (100 + 2 * sizeof_tag) + 4 * sizeof_tag < 480" by (simp add: r sizeof_tag_def)
  have b: "mem_begin gapped = 8" by (simp add: gapped_def)
  have "\<exists>m'. myalloc True gapped 100 = Some (Inr (m', 920))
          \<and> arena m' [(64, False), (480, True), (360, False), (120, True)]
          \<and> block_at (cells m') 552 (360, False)
          \<and> block_at (cells m') 912 (120, True)"
    using split_carves_tail[OF h1 h2 h4 h5, of True] by (auto simp add: r b sizeof_tag_def)
  with h1 h2 h4 h5 show ?thesis by blast
qed

subsection \<open>Taking a near-exact fit whole\<close>

text \<open>
  Claim C2. With \<open>B\<close> as before: when the scan passes only blocks that are busy or
  smaller than \<open>B\<close> and then reaches a free block whose size \<open>s\<close> lies in
  \<open>[B, B + 4 * sizeof(tag)]\<close>, \<open>myalloc\<close> takes that block whole: header and footer
  become busy, the size stays \<open>s\<close>, the block list keeps its length (no split), the
  payload address of the block is returned, and the blocks after it are not touched.
\<close>

theorem near_fit_taken_whole:
  fixes sz :: nat
  defines "B \<equiv> roundUp8 (sz + 2 * sizeof_tag)"
  assumes "arena m (pre @ (s, False) # post)"
    and "0 < sz"
    and "skipped B pre"
    and "B \<le> s"
    and "s \<le> B + 4 * sizeof_tag"
  shows "\<exists>m'. myalloc strict m sz =
                 Some (Inr (m', mem_begin m + int (span pre) + int sizeof_tag))
           \<and> arena m' (pre @ (s, True) # post)
           \<and> block_at (cells m') (mem_begin m + int (span pre)) (s, True)
           \<and> mem_begin m' = mem_begin m \<and> mem_end m' = mem_end m"
proof -
  let ?a = "mem_begin m + int (span pre)"
  let ?m' = "whole_result m ?a s"
  have s63: "s < 2 ^ 63" by (rule arena_block_bound[OF assms(2)])
  have sk: "\<forall>sb\<in>set pre. snd sb \<or> fst sb < B" using assms(4) by (simp add: skipped_iff)
  have fit: "s \<le> B + 32" using assms(6) by (simp add: sizeof_tag_def)
  have "sz + 2 * sizeof_tag \<le> B" using roundUp8_facts(2) by (simp add: B_def)
  with assms(5) s63 have "sz + 2 * sizeof_tag + 7 < 2 ^ 64" by simp
  then have rs: "request_size sz = B" by (simp add: request_size_eq B_def)
  have run: "myalloc strict m sz = Some (Inr (?m', ?a + int sizeof_tag))"
    using assms(3) rs alloc_whole_ok[OF assms(2) sk assms(5) fit, of strict]
    by (simp add: myalloc_def sizeof_tag_def)
  have ar: "arena ?m' (pre @ (s, True) # post)"
    by (rule arena_whole[OF assms(2) refl])
  have b1: "block_at (cells ?m') ?a (s, True)"
    by (rule arena_blocks[OF ar, simplified])
  show ?thesis using run ar b1 by (intro exI[of _ ?m']) simp
qed

theorem near_fit_taken_whole_witness:
  "arena gapped ([(64, False), (480, True)] @ (480, False) # [])
   \<and> (0::nat) < 440
   \<and> skipped (roundUp8 (440 + 2 * sizeof_tag)) [(64, False), (480, True)]
   \<and> roundUp8 (440 + 2 * sizeof_tag) \<le> 480
   \<and> 480 \<le> roundUp8 (440 + 2 * sizeof_tag) + 4 * sizeof_tag
   \<and> (\<exists>m'. myalloc True gapped 440 = Some (Inr (m', 560))
          \<and> arena m' [(64, False), (480, True), (480, True)]
          \<and> block_at (cells m') 552 (480, True))"
proof -
  have r: "roundUp8 456 = 456" by (simp add: roundUp8_def)
  have h1: "arena gapped ([(64, False), (480, True)] @ (480, False) # [])"
    using gapped_arena by simp
  have h2: "(0::nat) < 440" by simp
  have h4: "skipped (roundUp8 (440 + 2 * sizeof_tag)) [(64, False), (480, True)]"
    by (simp add: r sizeof_tag_def)
  have h5: "roundUp8 (440 + 2 * sizeof_tag) \<le> 480" by (simp add: r sizeof_tag_def)
  have h6: "480 \<le> roundUp8 (440 + 2 * sizeof_tag) + 4 * sizeof_tag" by (simp add: r sizeof_tag_def)
  have b: "mem_begin gapped = 8" by (simp add: gapped_def)
  have "\<exists>m'. myalloc True gapped 440 = Some (Inr (m', 560))
          \<and> arena m' [(64, False), (480, True), (480, True)]
          \<and> block_at (cells m') 552 (480, True)"
    using near_fit_taken_whole[OF h1 h2 h4 h5 h6, of True] by (auto simp add: r b sizeof_tag_def)
  with h1 h2 h4 h5 h6 show ?thesis by blast
qed

subsection \<open>Allocate, then free\<close>

text \<open>
  Claim C3 at the request \<open>2 ^ 64 - 8\<close> on the fresh arena of 1024 bytes. The block
  size wraps to 8; \<open>myalloc\<close> splits the free block into 1016 and 8 bytes and returns
  the non-null pointer 1032, which is \<open>mem::end\<close>. \<open>myfree\<close> of that pointer is out of
  bounds: it changes nothing without assertions and aborts with them. The arena is not
  back to one free block of 1024 bytes. (Lemma \<open>round_trip_restores\<close> is the claim for
  requests that do not wrap.)
\<close>

theorem wrapped_request_round_trip:
  "arena (fresh 1024) [(1024, False)] \<and> no_adjacent_free [(1024, False)]
   \<and> request_size 18446744073709551608 = 8
   \<and> (\<exists>m1. myalloc False (fresh 1024) 18446744073709551608 = Some (Inr (m1, 1032))
         \<and> myalloc True (fresh 1024) 18446744073709551608 = Some (Inr (m1, 1032))
         \<and> (1032::int) \<noteq> nullptr
         \<and> myfree False m1 1032 = Inr m1
         \<and> myfree True m1 1032 = Inl AssertionFailed
         \<and> walk False m1 (mem_begin m1) = Some (Inr [(8, 1016, False), (1024, 8, True)])
         \<and> \<not> arena m1 [(1024, False)])"
proof -
  have ar: "arena (fresh 1024) ([] @ (1024, False) # [])" by (simp add: arena_fresh)
  have rs: "request_size 18446744073709551608 = 8"
    by (simp add: request_size_def sizeof_tag_def)
  let ?m1 = "split_result (fresh 1024) 8 1024 8"
  have run: "myalloc strict (fresh 1024) 18446744073709551608 = Some (Inr (?m1, 1032))" for strict
    using alloc_split_ok[OF ar, of 8 strict] by (simp add: myalloc_def rs)
  have n: "(1032::int) \<noteq> nullptr" by (simp add: nullptr_def)
  have f: "myfree False ?m1 1032 = Inr ?m1" "myfree True ?m1 1032 = Inl AssertionFailed"
    using n by (simp_all add: myfree_def)
  have w: "walk False ?m1 (mem_begin ?m1) = Some (Inr [(8, 1016, False), (1024, 8, True)])"
    by (simp add: walk.simps split_result_def fresh_def)
  have na: "\<not> arena ?m1 [(1024, False)]"
    by (simp add: arena_def block_at_def split_result_def)
  show ?thesis using ar rs run n f w na by auto
qed

subsection \<open>No two free neighbours after a release\<close>

text \<open>
  Claim C4 as stated, for any call of \<open>myfree\<close>, fails. \<open>myfree\<close> has no way to tell
  a payload pointer from any other address inside the arena. In \<open>crowded\<close>, address
  968 is the header of the free block of 24 bytes, not a payload; the 8 bytes before
  it are the footer of the busy block on its left. The call \<open>myfree(968)\<close> passes
  both assertions, returns, and the walk then meets the free block at 968 followed by
  a free block at 992: two free neighbours, although \<open>crowded\<close> satisfies all four
  invariants.
\<close>

theorem stray_free_adjacent_free_counterexample:
  "arena crowded [(920, False), (40, True), (24, False), (40, True)]
   \<and> no_adjacent_free [(920, False), (40, True), (24, False), (40, True)]
   \<and> mem_begin crowded \<le> 968 \<and> 968 < mem_end crowded
   \<and> 968 \<notin> set (payloads (mem_begin crowded) [(920, False), (40, True), (24, False), (40, True)])
   \<and> map_option (map_sum id snd) (my_deleter True crowded 968)
       = Some (Inr [(8, 920, False), (928, 40, True), (968, 24, False), (992, 40, False)])
   \<and> \<not> no_adjacent_free
         (map snd [(8::addr, 920, False), (928, 40, True), (968, 24, False), (992, 40, False)])"
proof -
  let ?m' = "store (store (store (store (store (store crowded
        960 \<lparr>size63 = 40, busy = False\<rparr>) 992 \<lparr>size63 = 40, busy = False\<rparr>)
        960 \<lparr>size63 = 80, busy = False\<rparr>) 1032 \<lparr>size63 = 80, busy = False\<rparr>)
        960 \<lparr>size63 = 80, busy = False\<rparr>) 1032 \<lparr>size63 = 80, busy = False\<rparr>"
  have w: "walk True ?m' 8 = Some (Inr [(8, 920, False), (928, 40, True), (968, 24, False), (992, 40, False)])"
    by (simp add: walk.simps crowded_def next_blk_def)
  have b: "mem_begin crowded = 8" "mem_end crowded = 1032" by (simp_all add: crowded_def)
  have "my_deleter True crowded 968
          = Some (Inr (?m', [(8, 920, False), (928, 40, True), (968, 24, False), (992, 40, False)]))"
    using w b by (simp add: my_deleter_def mydump_def crowded_free_968)
  then show ?thesis using crowded_arena b by (simp add: sizeof_tag_def)
qed

text \<open>
  Claim C4, amended. In an arena that satisfies the invariants (partition, equal header
  and footer, sizes, no two free neighbours), after \<open>myfree\<close> returns from a call
  whose argument is null, outside the arena, or the payload pointer of a block, the
  walk from \<open>mem::begin\<close> to \<open>mem::end\<close> meets a block list with no two free
  neighbours: one merge to the left and one to the right are enough.
\<close>

theorem free_keeps_free_blocks_apart:
  assumes "arena m bs" and "no_adjacent_free bs" and "free_arg_ok m bs p"
    and "myfree strict m p = Inr m'"
  shows "\<exists>bs'. arena m' bs' \<and> no_adjacent_free bs'
           \<and> walk strict m' (mem_begin m') = Some (Inr (layout (mem_begin m') bs'))"
proof -
  from myfree_cases[OF assms(1,3,4)] show ?thesis
  proof
    assume "m' = m"
    then show ?thesis using assms(1,2) walk_arena[OF assms(1), of strict] by blast
  next
    assume "\<exists>pre s post. bs = pre @ (s, True) # post \<and> arena m' (free_blocks pre s post)
              \<and> mem_begin m' = mem_begin m \<and> mem_end m' = mem_end m"
    then obtain pre s post where bs: "bs = pre @ (s, True) # post"
      and ar: "arena m' (free_blocks pre s post)"
      by blast
    have "no_adjacent_free (free_blocks pre s post)"
      using assms(2) bs by (intro naf_free_blocks) simp
    then show ?thesis using ar walk_arena[OF ar, of strict] by blast
  qed
qed

theorem free_keeps_free_blocks_apart_witness:
  "arena crowded [(920, False), (40, True), (24, False), (40, True)]
   \<and> no_adjacent_free [(920, False), (40, True), (24, False), (40, True)]
   \<and> free_arg_ok crowded [(920, False), (40, True), (24, False), (40, True)] 936
   \<and> (\<exists>m'. myfree True crowded 936 = Inr m'
         \<and> arena m' [(984, False), (40, True)]
         \<and> (\<exists>bs'. arena m' bs' \<and> no_adjacent_free bs'
               \<and> walk True m' (mem_begin m') = Some (Inr (layout (mem_begin m') bs'))))"
proof -
  let ?bs = "[(920, False), (40, True), (24, False), (40, True)]"
  have b: "mem_begin crowded = 8" by (simp add: crowded_def)
  have h1: "arena crowded ?bs" by (rule crowded_arena)
  have h2: "no_adjacent_free ?bs" by simp
  have h3: "free_arg_ok crowded ?bs 936" by (simp add: free_arg_ok_def b sizeof_tag_def)
  have n: "(936::int) \<noteq> nullptr" by (simp add: nullptr_def)
  from free_ok[of crowded "[(920, False)]" 40 "[(24, False), (40, True)]" 936 True] h1 b n
  obtain m' where f: "myfree True crowded 936 = Inr m'" and ar: "arena m' [(984, False), (40, True)]"
    by (auto simp: free_blocks_def merge_left_def merge_right_def)
  from free_keeps_free_blocks_apart[OF h1 h2 h3 f] h1 h2 h3 f ar show ?thesis by blast
qed

subsection \<open>The partition across calls\<close>

text \<open>
  Claim C5 as stated, for every call of \<open>myfree\<close>, fails. In \<open>paired\<close>, which satisfies
  the partition invariant, address 1000 is the header of the last block, not a payload.
  The call \<open>myfree(1000)\<close> passes both assertions and returns; afterwards the block at
  968 still has the header (32, busy), but its footer at 992 holds (64, free): header
  and footer differ.
\<close>

theorem stray_free_breaks_footer_counterexample:
  "arena paired [(960, False), (32, True), (32, True)]
   \<and> mem_begin paired \<le> 1000 \<and> 1000 < mem_end paired
   \<and> 1000 \<notin> set (payloads (mem_begin paired) [(960, False), (32, True), (32, True)])
   \<and> peek [968, 968 + 32 - 8] (myfree True paired 1000)
       = Inr [\<lparr>size63 = 32, busy = True\<rparr>, \<lparr>size63 = 64, busy = False\<rparr>]
   \<and> map_option (map_sum id snd) (my_deleter True paired 1000)
       = Some (Inr [(8, 960, False), (968, 32, True), (1000, 32, True)])"
proof -
  let ?m' = "store (store (store (store (store (store paired
        992 \<lparr>size63 = 32, busy = False\<rparr>) 1016 \<lparr>size63 = 32, busy = False\<rparr>)
        992 \<lparr>size63 = 64, busy = False\<rparr>) 1048 \<lparr>size63 = 64, busy = False\<rparr>)
        992 \<lparr>size63 = 64, busy = False\<rparr>) 1048 \<lparr>size63 = 64, busy = False\<rparr>"
  have f: "myfree True paired 1000 = Inr ?m'"
    by (simp add: run_defs paired_def)
  have w: "walk True ?m' 8 = Some (Inr [(8, 960, False), (968, 32, True), (1000, 32, True)])"
    by (simp add: walk.simps paired_def next_blk_def)
  have b: "mem_begin paired = 8" "mem_end paired = 1032" by (simp_all add: paired_def)
  have d: "my_deleter True paired 1000
          = Some (Inr (?m', [(8, 960, False), (968, 32, True), (1000, 32, True)]))"
    using w b by (simp add: my_deleter_def mydump_def f)
  have p: "peek [968, 968 + 32 - 8] (myfree True paired 1000)
       = Inr [\<lparr>size63 = 32, busy = True\<rparr>, \<lparr>size63 = 64, busy = False\<rparr>]"
    unfolding f peek_def by (simp add: paired_def)
  show ?thesis using paired_arena b d p by (simp add: sizeof_tag_def)
qed

text \<open>
  Claim C5, amended. In an arena that satisfies the partition invariant, every call of
  \<open>myalloc\<close> whose size computation \<open>sz + 2 * sizeof(tag) + 7\<close> stays below \<open>2 ^ 64\<close>
  returns and leaves an arena that satisfies it, and so does every call of \<open>myfree\<close>
  that returns and whose argument is null, outside the arena, or the payload pointer of
  a block: the walk from \<open>mem::begin\<close> reaches exactly \<open>mem::end\<close>, header and footer of
  every block are equal, every size is a multiple of 8 and at least 16.
\<close>

theorem calls_keep_the_partition:
  assumes "arena m bs"
  shows "(sz + 2 * sizeof_tag + 7 < 2 ^ 64 \<longrightarrow>
            (\<exists>m' p bs'. myalloc strict m sz = Some (Inr (m', p)) \<and> arena m' bs'
               \<and> walk strict m' (mem_begin m') = Some (Inr (layout (mem_begin m') bs'))))
       \<and> (free_arg_ok m bs q \<and> myfree strict m q = Inr m2 \<longrightarrow>
            (\<exists>bs'. arena m2 bs'
               \<and> walk strict m2 (mem_begin m2) = Some (Inr (layout (mem_begin m2) bs'))))"
proof (intro conjI impI)
  assume ok: "sz + 2 * sizeof_tag + 7 < 2 ^ 64"
  have "\<exists>m' p bs'. myalloc strict m sz = Some (Inr (m', p)) \<and> arena m' bs'"
  proof (cases "sz = 0")
    case True
    then show ?thesis using assms by (auto simp: myalloc_def)
  next
    case False
    then have pos: "0 < sz" by simp
    from myalloc_cases[OF assms pos request_size_ok[OF ok pos], of strict] assms
    show ?thesis by blast
  qed
  then obtain m' p bs' where "myalloc strict m sz = Some (Inr (m', p))" and ar: "arena m' bs'"
    by blast
  then show "\<exists>m' p bs'. myalloc strict m sz = Some (Inr (m', p)) \<and> arena m' bs'
               \<and> walk strict m' (mem_begin m') = Some (Inr (layout (mem_begin m') bs'))"
    using walk_arena[OF ar, of strict] by blast
next
  assume "free_arg_ok m bs q \<and> myfree strict m q = Inr m2"
  then have ok: "free_arg_ok m bs q" and fr: "myfree strict m q = Inr m2" by simp_all
  from myfree_cases[OF assms ok fr] assms obtain bs' where ar: "arena m2 bs'" by blast
  then show "\<exists>bs'. arena m2 bs'
               \<and> walk strict m2 (mem_begin m2) = Some (Inr (layout (mem_begin m2) bs'))"
    using walk_arena[OF ar, of strict] by blast
qed

theorem calls_keep_the_partition_witness:
  "arena crowded [(920, False), (40, True), (24, False), (40, True)]
   \<and> (16::nat) + 2 * sizeof_tag + 7 < 2 ^ 64
   \<and> (\<exists>m' p bs'. myalloc True crowded 16 = Some (Inr (m', p)) \<and> arena m' bs'
         \<and> walk True m' (mem_begin m') = Some (Inr (layout (mem_begin m') bs')))
   \<and> free_arg_ok crowded [(920, False), (40, True), (24, False), (40, True)] 936
   \<and> (\<exists>m2. myfree True crowded 936 = Inr m2
         \<and> (\<exists>bs'. arena m2 bs'
               \<and> walk True m2 (mem_begin m2) = Some (Inr (layout (mem_begin m2) bs'))))"
proof -
  let ?bs = "[(920, False), (40, True), (24, False), (40, True)]"
  have b: "mem_begin crowded = 8" by (simp add: crowded_def)
  have h1: "arena crowded ?bs" by (rule crowded_arena)
  have h2: "(16::nat) + 2 * sizeof_tag + 7 < 2 ^ 64" by (simp add: sizeof_tag_def)
  have h3: "free_arg_ok crowded ?bs 936" by (simp add: free_arg_ok_def b sizeof_tag_def)
  have n: "(936::int) \<noteq> nullptr" by (simp add: nullptr_def)
  from free_ok[of crowded "[(920, False)]" 40 "[(24, False), (40, True)]" 936 True] h1 b n
  obtain m2 where f: "myfree True crowded 936 = Inr m2" by auto
  from calls_keep_the_partition[OF h1, of 16 True 936 m2] h1 h2 h3 f show ?thesis by blast
qed

subsection \<open>The first allocation of the scenario\<close>

text \<open>
  Claim C6 as stated, with the busy block first, fails. After the first request of the
  test, in a build with assertions, on the buffer at address 8, \<open>mydump\<close> prints the
  free block of 992 bytes first and the busy block of 32 bytes second: the source
  keeps the free remainder on the left (lines 80 and 81).
\<close>

theorem first_allocation_order_counterexample:
  "mysetup True (initial zeroed) 8 1024 = Inr (fresh 1024)
   \<and> map_option (map_sum id snd) (my_allocator True (fresh 1024) 16)
       = Some (Inr (1008, [(8, 992, False), (1000, 32, True)]))"
proof -
  have ar: "arena (fresh 1024) ([] @ (1024, False) # [])" by (simp add: arena_fresh)
  have b: "mem_begin (fresh 1024) = 8" by (simp add: fresh_def)
  from myalloc_split[OF ar, of 16 True] b
  obtain m' where a: "myalloc True (fresh 1024) 16 = Some (Inr (m', 1008))"
    and ar': "arena m' [(992, False), (32, True)]" and b': "mem_begin m' = 8"
    by auto
  have "walk True m' 8 = Some (Inr [(8, 992, False), (1000, 32, True)])"
    using walk_arena[OF ar', of True] b' by simp
  then have "my_allocator True (fresh 1024) 16
               = Some (Inr (m', 1008, [(8, 992, False), (1000, 32, True)]))"
    using a b' by (simp add: my_allocator_def mydump_def)
  then show ?thesis by (simp add: setup_fresh)
qed

text \<open>
  Claim C6, amended. After \<open>mysetup(buf, 1024)\<close>, \<open>myalloc(16)\<close> returns the non-null
  pointer \<open>buf + 1000\<close> and leaves two blocks, in this order from \<open>mem::begin\<close>: a free
  block of 992 bytes, then a busy block of 32 bytes. The buffer lies at a positive
  address; the previous contents \<open>h\<close> of the store and the build are arbitrary.
\<close>

theorem first_allocation_layout:
  assumes "0 < buf"
  shows "\<exists>ms m'. mysetup strict (initial h) buf 1024 = Inr ms
           \<and> arena ms [(1024, False)] \<and> mem_begin ms = buf
           \<and> myalloc strict ms 16 = Some (Inr (m', buf + 1000))
           \<and> buf + 1000 \<noteq> nullptr
           \<and> arena m' [(992, False), (32, True)]
           \<and> walk strict m' (mem_begin m') = Some (Inr [(buf, 992, False), (buf + 992, 32, True)])"
proof -
  have nn: "buf \<noteq> nullptr" using assms by (simp add: nullptr_def)
  from setup_arena[OF _ _ _ nn, of 1024 strict h]
  obtain ms where s: "mysetup strict (initial h) buf 1024 = Inr ms"
    and ar: "arena ms ([] @ (1024, False) # [])" and b: "mem_begin ms = buf"
    by auto
  from myalloc_split[OF ar, of 16 strict] b
  obtain m' where a: "myalloc strict ms 16 = Some (Inr (m', buf + 1000))"
    and ar': "arena m' [(992, False), (32, True)]" and b': "mem_begin m' = buf"
    by auto
  have w: "walk strict m' (mem_begin m') = Some (Inr [(buf, 992, False), (buf + 992, 32, True)])"
    using walk_arena[OF ar', of strict] b' by simp
  have "buf + 1000 \<noteq> nullptr" using assms by (simp add: nullptr_def)
  with s ar b a ar' w show ?thesis by auto
qed

theorem first_allocation_layout_witness:
  "(0::int) < 8
   \<and> (\<exists>ms m'. mysetup True (initial zeroed) 8 1024 = Inr ms
           \<and> arena ms [(1024, False)] \<and> mem_begin ms = 8
           \<and> myalloc True ms 16 = Some (Inr (m', 1008))
           \<and> (1008::int) \<noteq> nullptr
           \<and> arena m' [(992, False), (32, True)]
           \<and> walk True m' (mem_begin m') = Some (Inr [(8, 992, False), (1000, 32, True)]))"
  using first_allocation_layout[of 8 True zeroed] by simp

subsection \<open>Freeing in any order\<close>

text \<open>
  Claim C7. After \<open>mysetup(buf, 1024)\<close> and the requests of 16, 512, 1024 and 12 bytes
  (the third returns null, the others do not), freeing the three pointers in any of
  the six orders leaves exactly one free block of 1024 bytes at \<open>buf\<close>. The buffer lies
  at a positive address; the previous contents of the store and the build are
  arbitrary.
\<close>

theorem free_in_any_order:
  assumes "0 < buf"
  shows "\<exists>m p1 p2 p3.
           test_allocs strict (initial h) buf = Some (Inr (m, p1, p2, nullptr, p3))
           \<and> p1 \<noteq> nullptr \<and> p2 \<noteq> nullptr \<and> p3 \<noteq> nullptr
           \<and> (\<forall>ps \<in> set (all_orders p1 p2 p3).
                 \<exists>m'. free_all strict m ps = Inr m' \<and> arena m' [(1024, False)]
                   \<and> mem_begin m' = buf
                   \<and> walk strict m' (mem_begin m') = Some (Inr [(buf, 1024, False)]))"
proof -
  from test_allocs_run[OF assms, of strict h]
  obtain m where run: "test_allocs strict (initial h) buf
                         = Some (Inr (m, buf + 1000, buf + 472, nullptr, buf + 440))"
    and ar: "arena m [(432, False), (32, True), (528, True), (32, True)]"
    and b: "mem_begin m = buf"
    by blast
  let ?p1 = "buf + 1000" and ?p2 = "buf + 472" and ?p3 = "buf + 440"
  let ?goal = "\<lambda>ps. \<exists>m'. free_all strict m ps = Inr m' \<and> arena m' [(1024, False)]
                   \<and> mem_begin m' = buf"
  note ev = free_blocks_def merge_left_def merge_right_def Let_def
  have o123: "?goal [?p1, ?p2, ?p3]"
    using free_three[of m "[(432, False), (32, True), (528, True)]" 32 "[]" buf ?p1
        "[(432, False), (32, True)]" 528 "[(32, False)]" ?p2
        "[(432, False)]" 32 "[(560, False)]" ?p3 strict] ar b assms
    by (simp add: ev)
  have o132: "?goal [?p1, ?p3, ?p2]"
    using free_three[of m "[(432, False), (32, True), (528, True)]" 32 "[]" buf ?p1
        "[(432, False)]" 32 "[(528, True), (32, False)]" ?p3
        "[(464, False)]" 528 "[(32, False)]" ?p2 strict] ar b assms
    by (simp add: ev)
  have o213: "?goal [?p2, ?p1, ?p3]"
    using free_three[of m "[(432, False), (32, True)]" 528 "[(32, True)]" buf ?p2
        "[(432, False), (32, True), (528, False)]" 32 "[]" ?p1
        "[(432, False)]" 32 "[(560, False)]" ?p3 strict] ar b assms
    by (simp add: ev)
  have o231: "?goal [?p2, ?p3, ?p1]"
    using free_three[of m "[(432, False), (32, True)]" 528 "[(32, True)]" buf ?p2
        "[(432, False)]" 32 "[(528, False), (32, True)]" ?p3
        "[(992, False)]" 32 "[]" ?p1 strict] ar b assms
    by (simp add: ev)
  have o312: "?goal [?p3, ?p1, ?p2]"
    using free_three[of m "[(432, False)]" 32 "[(528, True), (32, True)]" buf ?p3
        "[(464, False), (528, True)]" 32 "[]" ?p1
        "[(464, False)]" 528 "[(32, False)]" ?p2 strict] ar b assms
    by (simp add: ev)
  have o321: "?goal [?p3, ?p2, ?p1]"
    using free_three[of m "[(432, False)]" 32 "[(528, True), (32, True)]" buf ?p3
        "[(464, False)]" 528 "[(32, True)]" ?p2
        "[(992, False)]" 32 "[]" ?p1 strict] ar b assms
    by (simp add: ev)
  have fin: "\<exists>m'. free_all strict m ps = Inr m' \<and> arena m' [(1024, False)]
                   \<and> mem_begin m' = buf
                   \<and> walk strict m' (mem_begin m') = Some (Inr [(buf, 1024, False)])"
    if "?goal ps" for ps
  proof -
    from that obtain m' where f: "free_all strict m ps = Inr m'"
      and a: "arena m' [(1024, False)]" and b': "mem_begin m' = buf"
      by blast
    have "walk strict m' (mem_begin m') = Some (Inr [(buf, 1024, False)])"
      using walk_arena[OF a, of strict] b' by simp
    with f a b' show ?thesis by blast
  qed
  have all: "\<forall>ps \<in> set (all_orders ?p1 ?p2 ?p3).
                 \<exists>m'. free_all strict m ps = Inr m' \<and> arena m' [(1024, False)]
                   \<and> mem_begin m' = buf
                   \<and> walk strict m' (mem_begin m') = Some (Inr [(buf, 1024, False)])"
    using fin[OF o123] fin[OF o132] fin[OF o213] fin[OF o231] fin[OF o312] fin[OF o321]
    by (simp add: all_orders_def)
  have nn: "?p1 \<noteq> nullptr" "?p2 \<noteq> nullptr" "?p3 \<noteq> nullptr"
    using assms by (simp_all add: nullptr_def)
  show ?thesis using run nn all by blast
qed

theorem free_in_any_order_witness:
  "(0::int) < 8
   \<and> (\<exists>m p1 p2 p3.
           test_allocs True (initial zeroed) 8 = Some (Inr (m, p1, p2, nullptr, p3))
           \<and> p1 \<noteq> nullptr \<and> p2 \<noteq> nullptr \<and> p3 \<noteq> nullptr
           \<and> (\<forall>ps \<in> set (all_orders p1 p2 p3).
                 \<exists>m'. free_all True m ps = Inr m' \<and> arena m' [(1024, False)]
                   \<and> mem_begin m' = 8
                   \<and> walk True m' (mem_begin m') = Some (Inr [(8, 1024, False)])))"
proof -
  have h: "(0::int) < 8" by simp
  from free_in_any_order[OF h, of True zeroed] h show ?thesis by blast
qed

subsection \<open>Invalid releases without assertions\<close>

text \<open>
  Claim C8. Without assertions, \<open>myfree\<close> returns the state it was given, unchanged,
  when its argument is null, lies outside \<open>[mem::begin, mem::end)\<close>, or is preceded by a
  tag whose busy flag is false: every check comes before the first store. (With
  assertions the same calls abort, except for the null pointer.)
\<close>

theorem invalid_free_changes_nothing:
  assumes "p = nullptr \<or> p < mem_begin m \<or> mem_end m \<le> p \<or> \<not> busy (cells m (from_user_mem p))"
  shows "myfree False m p = Inr m
         \<and> myfree True m p = (if p = nullptr then Inr m else Inl AssertionFailed)"
  using assms by (auto simp: myfree_def Let_def)

theorem invalid_free_changes_nothing_witness:
  "((0::int) = nullptr \<or> 0 < mem_begin (fresh 1024) \<or> mem_end (fresh 1024) \<le> 0
      \<or> \<not> busy (cells (fresh 1024) (from_user_mem 0)))
   \<and> myfree False (fresh 1024) 0 = Inr (fresh 1024)
   \<and> ((2000::int) = nullptr \<or> 2000 < mem_begin (fresh 1024) \<or> mem_end (fresh 1024) \<le> 2000
      \<or> \<not> busy (cells (fresh 1024) (from_user_mem 2000)))
   \<and> myfree False (fresh 1024) 2000 = Inr (fresh 1024)
   \<and> myfree True (fresh 1024) 2000 = Inl AssertionFailed
   \<and> ((16::int) = nullptr \<or> 16 < mem_begin (fresh 1024) \<or> mem_end (fresh 1024) \<le> 16
      \<or> \<not> busy (cells (fresh 1024) (from_user_mem 16)))
   \<and> myfree False (fresh 1024) 16 = Inr (fresh 1024)
   \<and> myfree True (fresh 1024) 16 = Inl AssertionFailed"
proof -
  have h1: "(0::int) = nullptr \<or> 0 < mem_begin (fresh 1024) \<or> mem_end (fresh 1024) \<le> 0
      \<or> \<not> busy (cells (fresh 1024) (from_user_mem 0))"
    by (simp add: nullptr_def)
  have h2: "(2000::int) = nullptr \<or> 2000 < mem_begin (fresh 1024) \<or> mem_end (fresh 1024) \<le> 2000
      \<or> \<not> busy (cells (fresh 1024) (from_user_mem 2000))"
    by (simp add: fresh_def)
  have h3: "(16::int) = nullptr \<or> 16 < mem_begin (fresh 1024) \<or> mem_end (fresh 1024) \<le> 16
      \<or> \<not> busy (cells (fresh 1024) (from_user_mem 16))"
    by (simp add: fresh_def from_user_mem_def sizeof_tag_def)
  have n: "(2000::int) \<noteq> nullptr" "(16::int) \<noteq> nullptr" by (simp_all add: nullptr_def)
  show ?thesis
    using invalid_free_changes_nothing[OF h1] invalid_free_changes_nothing[OF h2]
      invalid_free_changes_nothing[OF h3] h1 h2 h3 n
    by simp
qed

subsection \<open>Requests that cannot be served\<close>

text \<open>
  Claim C9 at the request \<open>2 ^ 64 - 1\<close> on the fresh arena of 1024 bytes. The
  specification's block size \<open>roundUp8 (sz + 16)\<close> exceeds every block, so the claim
  asks for null and an unchanged arena. The source computes \<open>sz + 16 + 7\<close> in 64 bits:
  it wraps to 22, the block size becomes 16, the free block is split and a non-null
  pointer is returned. (Lemma \<open>out_of_memory\<close> is the claim for requests that do not
  wrap.)
\<close>

theorem wrapped_request_is_served:
  "arena (fresh 1024) [(1024, False)]
   \<and> skipped (roundUp8 (18446744073709551615 + 2 * sizeof_tag)) [(1024, False)]
   \<and> request_size 18446744073709551615 = 16
   \<and> (\<exists>m'. myalloc False (fresh 1024) 18446744073709551615 = Some (Inr (m', 1024))
         \<and> myalloc True (fresh 1024) 18446744073709551615 = Some (Inr (m', 1024))
         \<and> (1024::int) \<noteq> nullptr
         \<and> arena m' [(1008, False), (16, True)])"
proof -
  have ar: "arena (fresh 1024) ([] @ (1024, False) # [])" by (simp add: arena_fresh)
  have rs: "request_size 18446744073709551615 = 16"
    by (simp add: request_size_def sizeof_tag_def)
  have sk: "skipped (roundUp8 (18446744073709551615 + 2 * sizeof_tag)) [(1024, False)]"
    by (simp add: roundUp8_def sizeof_tag_def)
  let ?m' = "split_result (fresh 1024) 8 1024 16"
  have run: "myalloc strict (fresh 1024) 18446744073709551615 = Some (Inr (?m', 1024))" for strict
    using alloc_split_ok[OF ar, of 16 strict] by (simp add: myalloc_def rs)
  have ar': "arena ?m' [(1008, False), (16, True)]"
    using arena_split[OF ar, of 8 16] by simp
  have n: "(1024::int) \<noteq> nullptr" by (simp add: nullptr_def)
  show ?thesis using ar rs sk run ar' n by auto
qed

subsection \<open>What the bounds check of myfree admits\<close>



end
